theory Spec2Isabelle
  imports Main "HOL-Library.Word" "HOL-Library.Monad_Syntax"
begin

unbundle bit_operations_syntax

declare Option.bind_cong [fundef_cong]

section \<open>tinflate: data model\<close>

text \<open>
  A shallow embedding of \<^verbatim>\<open>src/src/tinflate.c\<close>.

  Memory. The two caller-owned regions are lists: \<open>src\<close> is the memory
  \<^verbatim>\<open>source .. source + sourceLen\<close> and \<open>out\<close> is the memory
  \<^verbatim>\<open>dest .. dest + *destLen\<close>. The pointers \<^verbatim>\<open>d->source\<close> and \<^verbatim>\<open>d->dest\<close>
  are indices into these lists, \<^verbatim>\<open>d->sourceEnd\<close> and \<^verbatim>\<open>d->destEnd\<close> are the
  lengths of the lists. Every access of the C code to one of the two regions goes
  through \<open>src_read\<close>, \<open>dest_read\<close> or \<open>dest_write\<close>, which yield \<open>None\<close> when
  the index is outside the region. A failed \<^verbatim>\<open>assert\<close> of the source is \<open>None\<close>
  as well. So every function that touches memory returns an \<open>option\<close>, and
  \<open>None\<close> stands for "the C program left defined behaviour".

  Status codes. \<^verbatim>\<open>tinf.h\<close> is not among the sources; the three status codes
  \<^verbatim>\<open>TINF_OK\<close>, \<^verbatim>\<open>TINF_DATA_ERROR\<close>, \<^verbatim>\<open>TINF_BUF_ERROR\<close> form a datatype.
\<close>

type_synonym byte = "8 word"

datatype status = TINF_OK | TINF_DATA_ERROR | TINF_BUF_ERROR

text \<open>
  \<^verbatim>\<open>struct tinf_tree\<close>. The entries of \<open>table\<close> and \<open>trans_tab\<close> are
  \<^verbatim>\<open>unsigned short\<close>; they never exceed 288 (\<^verbatim>\<open>assert(num <= 288)\<close>), so they
  are natural numbers here. The field \<^verbatim>\<open>trans\<close> is called \<open>trans_tab\<close>.
\<close>

record tinf_tree =
  table :: "nat list"
  trans_tab :: "nat list"
  max_sym :: int

text \<open>
  \<^verbatim>\<open>struct tinf_data\<close>. \<open>tag\<close> is the 32-bit \<^verbatim>\<open>unsigned int\<close> bit buffer,
  \<open>destLen\<close> the \<^verbatim>\<open>unsigned int\<close> count of bytes written (kept modulo \<open>2 ^ 32\<close>).
\<close>

record tinf_data =
  src :: "byte list"
  source :: nat
  tag :: "32 word"
  bitcount :: nat
  overflow :: bool
  out :: "byte list"
  dest :: nat
  destLen :: nat
  ltree :: tinf_tree
  dtree :: tinf_tree

definition sourceEnd :: "tinf_data \<Rightarrow> nat" where
  "sourceEnd d = length (src d)"

definition destEnd :: "tinf_data \<Rightarrow> nat" where
  "destEnd d = length (out d)"

definition src_read :: "tinf_data \<Rightarrow> nat \<Rightarrow> byte option" where
  "src_read d i = (if i < length (src d) then Some (src d ! i) else None)"

definition dest_read :: "tinf_data \<Rightarrow> int \<Rightarrow> byte option" where
  "dest_read d p = (if 0 \<le> p \<and> p < int (length (out d)) then Some (out d ! nat p) else None)"

definition dest_write :: "tinf_data \<Rightarrow> nat \<Rightarrow> byte \<Rightarrow> tinf_data option" where
  "dest_write d i b = (if i < length (out d) then Some (d\<lparr>out := (out d)[i := b]\<rparr>) else None)"

subsection \<open>Constant tables of \<^verbatim>\<open>tinf_inflate_block_data\<close>\<close>

definition length_bits :: "nat list" where
  "length_bits =
    [0, 0, 0, 0, 0, 0, 0, 0, 1, 1,
     1, 1, 2, 2, 2, 2, 3, 3, 3, 3,
     4, 4, 4, 4, 5, 5, 5, 5, 0, 127]"

definition length_base :: "nat list" where
  "length_base =
    [3, 4, 5, 6, 7, 8, 9, 10, 11, 13,
     15, 17, 19, 23, 27, 31, 35, 43, 51, 59,
     67, 83, 99, 115, 131, 163, 195, 227, 258, 0]"

definition dist_bits :: "nat list" where
  "dist_bits =
    [0, 0, 0, 0, 1, 1, 2, 2, 3, 3,
     4, 4, 5, 5, 6, 6, 7, 7, 8, 8,
     9, 9, 10, 10, 11, 11, 12, 12, 13, 13]"

definition dist_base :: "nat list" where
  "dist_base =
    [1, 2, 3, 4, 5, 7, 9, 13, 17, 25,
     33, 49, 65, 97, 129, 193, 257, 385, 513, 769,
     1025, 1537, 2049, 3073, 4097, 6145, 8193, 12289, 16385, 24577]"

definition clcidx :: "nat list" where
  "clcidx =
    [16, 17, 18, 0, 8, 7, 9, 6, 10, 5,
     11, 4, 12, 3, 13, 2, 14, 1, 15]"

section \<open>Utility functions and tree construction\<close>

text \<open>\<^verbatim>\<open>read_le16(p)\<close>, with \<open>p\<close> the index \<open>i\<close> into the source region.\<close>

definition read_le16 :: "tinf_data \<Rightarrow> nat \<Rightarrow> 32 word option" where
  "read_le16 d i = do {
     b0 \<leftarrow> src_read d i;
     b1 \<leftarrow> src_read d (i + 1);
     Some ((ucast b0 :: 32 word) OR push_bit 8 (ucast b1))
   }"

text \<open>
  \<^verbatim>\<open>tinf_build_fixed_trees\<close>. The two trees are overwritten in place: the first
  entries of \<open>trans_tab\<close> are stored, the others keep what they held.
\<close>

definition store_list :: "nat list \<Rightarrow> nat list \<Rightarrow> nat list" where
  "store_list xs ys = ys @ drop (length ys) xs"

definition fixed_ltree :: "tinf_tree \<Rightarrow> tinf_tree" where
  "fixed_ltree lt =
     lt\<lparr>table := (replicate 16 0)[7 := 24, 8 := 152, 9 := 112],
        trans_tab := store_list (trans_tab lt)
          (map (\<lambda>i. 256 + i) [0..<24] @ [0..<144] @ map (\<lambda>i. 280 + i) [0..<8] @
           map (\<lambda>i. 144 + i) [0..<112]),
        max_sym := 285\<rparr>"

definition fixed_dtree :: "tinf_tree \<Rightarrow> tinf_tree" where
  "fixed_dtree dt =
     dt\<lparr>table := (replicate 16 0)[5 := 32],
        trans_tab := store_list (trans_tab dt) [0..<32],
        max_sym := 29\<rparr>"

definition tinf_build_fixed_trees :: "tinf_data \<Rightarrow> tinf_data" where
  "tinf_build_fixed_trees d = d\<lparr>ltree := fixed_ltree (ltree d), dtree := fixed_dtree (dtree d)\<rparr>"

text \<open>
  \<^verbatim>\<open>tinf_build_tree(t, lengths, num)\<close>. \<open>lengths\<close> is the memory the pointer
  \<^verbatim>\<open>lengths\<close> points to (entries are \<^verbatim>\<open>unsigned char\<close>, kept as naturals).

  First loop (lines 126-134): tally the code lengths and record \<open>max_sym\<close>.
\<close>

definition tally_step :: "nat list \<Rightarrow> nat \<Rightarrow> tinf_tree \<Rightarrow> tinf_tree" where
  "tally_step lengths i t =
     (let l = lengths ! i in
      t\<lparr>max_sym := (if l \<noteq> 0 then int i else max_sym t),
        table := (table t)[l := table t ! l + 1]\<rparr>)"

definition tally :: "tinf_tree \<Rightarrow> nat list \<Rightarrow> nat \<Rightarrow> tinf_tree" where
  "tally t lengths num = fold (tally_step lengths) [0..<num] t"

text \<open>
  Second loop (lines 139-148) over the sixteen table entries: \<open>None\<close> is the early
  \<^verbatim>\<open>return TINF_DATA_ERROR\<close>; otherwise the final \<open>max\<close>, \<open>sum\<close> and the offsets.
\<close>

fun scan_counts :: "nat list \<Rightarrow> nat \<Rightarrow> nat \<Rightarrow> nat list \<Rightarrow> (nat \<times> nat \<times> nat list) option" where
  "scan_counts [] mx sm offs = Some (mx, sm, offs)"
| "scan_counts (c # cs) mx sm offs =
     (if c > mx then None else scan_counts cs (2 * (mx - c)) (sm + c) (offs @ [sm]))"

text \<open>Third loop (lines 156-160): the distribution sort into \<open>trans_tab\<close>.\<close>

definition place_step :: "nat list \<Rightarrow> nat \<Rightarrow> nat list \<times> nat list \<Rightarrow> nat list \<times> nat list" where
  "place_step lengths i p =
     (case p of (tr, offs) \<Rightarrow>
        (let l = lengths ! i in
         if l \<noteq> 0 then (tr[offs ! l := i], offs[l := offs ! l + 1]) else (tr, offs)))"

definition place :: "nat list \<Rightarrow> nat \<Rightarrow> nat list \<Rightarrow> nat list \<Rightarrow> nat list" where
  "place lengths num tr offs = fst (fold (place_step lengths) [0..<num] (tr, offs))"

text \<open>
  The whole function. The two assertions (\<^verbatim>\<open>num <= 288\<close>, \<^verbatim>\<open>lengths[i] <= 15\<close>)
  and the requirement that \<open>lengths\<close> has \<open>num\<close> entries are checked first.
\<close>

definition tinf_build_tree :: "tinf_tree \<Rightarrow> nat list \<Rightarrow> nat \<Rightarrow> (status \<times> tinf_tree) option" where
  "tinf_build_tree t lengths num =
     (if \<not> (num \<le> 288 \<and> num \<le> length lengths \<and> list_all (\<lambda>l. l \<le> 15) (take num lengths))
      then None
      else
        let t1 = tally (t\<lparr>table := replicate 16 0, max_sym := - 1\<rparr>) lengths num;
            t2 = t1\<lparr>table := (table t1)[0 := 0]\<rparr>
        in case scan_counts (table t2) 1 0 [] of
             None \<Rightarrow> Some (TINF_DATA_ERROR, t2)
           | Some (mx, sm, offs) \<Rightarrow>
               if (sm > 1 \<and> mx > 0) \<or> (sm = 1 \<and> table t2 ! 1 \<noteq> 1)
               then Some (TINF_DATA_ERROR, t2)
               else
                 let t3 = t2\<lparr>trans_tab := place lengths num (trans_tab t2) offs\<rparr> in
                 if sm = 1
                 then Some (TINF_OK,
                        t3\<lparr>table := (table t3)[1 := 2],
                           trans_tab := (trans_tab t3)[1 := nat (max_sym t3 + 1)]\<rparr>)
                 else Some (TINF_OK, t3))"

section \<open>Bit reader and symbol decoder\<close>

text \<open>
  \<^verbatim>\<open>tinf_refill\<close>: the loop, then the final assertion \<^verbatim>\<open>bitcount <= 32\<close>. A shift
  of the 32-bit tag by 32 or more is undefined in C and is \<open>None\<close> here.
\<close>

function refill_loop :: "tinf_data \<Rightarrow> nat \<Rightarrow> tinf_data option" where
  "refill_loop d num =
     (if bitcount d < num then
        (if source d \<noteq> sourceEnd d then
           (case src_read d (source d) of
              None \<Rightarrow> None
            | Some b \<Rightarrow>
                if 32 \<le> bitcount d then None
                else refill_loop
                       (d\<lparr>tag := tag d OR push_bit (bitcount d) (ucast b),
                          source := source d + 1,
                          bitcount := bitcount d + 8\<rparr>) num)
         else refill_loop (d\<lparr>overflow := True, bitcount := bitcount d + 8\<rparr>) num)
      else Some d)"
  by pat_completeness auto
termination
  by (relation "measure (\<lambda>(d, num). num - bitcount d)") auto

definition tinf_refill :: "tinf_data \<Rightarrow> nat \<Rightarrow> tinf_data option" where
  "tinf_refill d num =
     (if num \<le> 32 then
        do { d' \<leftarrow> refill_loop d num;
             if bitcount d' \<le> 32 then Some d' else None }
      else None)"

text \<open>
  \<^verbatim>\<open>tinf_getbits_no_refill\<close>: the assertion \<^verbatim>\<open>num <= bitcount\<close>, then the mask and the
  shift \<^verbatim>\<open>d->tag >>= num\<close>, which is undefined in C for \<open>num = 32\<close> and is \<open>None\<close> here.
\<close>

definition tinf_getbits_no_refill :: "tinf_data \<Rightarrow> nat \<Rightarrow> (nat \<times> tinf_data) option" where
  "tinf_getbits_no_refill d num =
     (if num \<le> bitcount d \<and> num < 32 then
        Some (unat (take_bit num (tag d)),
              d\<lparr>tag := drop_bit num (tag d), bitcount := bitcount d - num\<rparr>)
      else None)"

definition tinf_getbits :: "tinf_data \<Rightarrow> nat \<Rightarrow> (nat \<times> tinf_data) option" where
  "tinf_getbits d num = do { d' \<leftarrow> tinf_refill d num; tinf_getbits_no_refill d' num }"

definition tinf_getbits_base :: "tinf_data \<Rightarrow> nat \<Rightarrow> nat \<Rightarrow> (nat \<times> tinf_data) option" where
  "tinf_getbits_base d num base =
     (if num \<noteq> 0 then do { (v, d') \<leftarrow> tinf_getbits d num; Some (base + v, d') }
      else Some (base, d))"

text \<open>
  \<^verbatim>\<open>tinf_decode_symbol\<close>: the do-while loop with its two assertions
  (\<^verbatim>\<open>len <= 15\<close> inside, \<^verbatim>\<open>0 <= sum + cur < 288\<close> after it).
\<close>

function decode_loop ::
  "tinf_data \<Rightarrow> tinf_tree \<Rightarrow> int \<Rightarrow> int \<Rightarrow> nat \<Rightarrow> (nat \<times> tinf_data) option" where
  "decode_loop d t sm cur len =
     do {
       (b, d1) \<leftarrow> tinf_getbits d 1;
       let cur1 = 2 * cur + int b;
           len1 = len + 1
       in if 15 < len1 then None
          else
            let sm' = sm + int (table t ! len1);
                cur' = cur1 - int (table t ! len1)
            in if 0 \<le> cur' then decode_loop d1 t sm' cur' len1
               else if 0 \<le> sm' + cur' \<and> sm' + cur' < 288
                    then Some (trans_tab t ! nat (sm' + cur'), d1)
                    else None
     }"
  by pat_completeness auto
termination
  by (relation "measure (\<lambda>(d, t, sm, cur, len). 16 - len)") auto

definition tinf_decode_symbol :: "tinf_data \<Rightarrow> tinf_tree \<Rightarrow> (nat \<times> tinf_data) option" where
  "tinf_decode_symbol d t = decode_loop d t 0 0 0"

lemma tinf_getbits_base_ge:
  "tinf_getbits_base d num base = Some (v, d') \<Longrightarrow> base \<le> v"
  by (auto simp: tinf_getbits_base_def split: if_splits Option.bind_splits)

section \<open>Dynamic trees\<close>

text \<open>
  \<^verbatim>\<open>tinf_decode_trees\<close>, lines 286-291: the code lengths of the code length
  alphabet, stored at the positions \<^verbatim>\<open>clcidx[0 .. hclen)\<close>.
\<close>

fun read_clens :: "tinf_data \<Rightarrow> nat list \<Rightarrow> nat list \<Rightarrow> (nat list \<times> tinf_data) option" where
  "read_clens d lengths [] = Some (lengths, d)"
| "read_clens d lengths (k # ks) =
     do { (clen, d1) \<leftarrow> tinf_getbits d 3; read_clens d1 (lengths[k := clen]) ks }"

text \<open>
  The \<^verbatim>\<open>switch (sym)\<close> of lines 313-336: the code length to store and how often,
  or \<open>None\<close> for the \<^verbatim>\<open>return TINF_DATA_ERROR\<close> of case 16 at \<open>num = 0\<close>.
\<close>

definition rle_symbol ::
  "tinf_data \<Rightarrow> nat list \<Rightarrow> nat \<Rightarrow> nat \<Rightarrow> ((nat \<times> nat) option \<times> tinf_data) option" where
  "rle_symbol d lengths num symb =
     (if symb = 16 then
        (if num = 0 then Some (None, d)
         else do { (l, d1) \<leftarrow> tinf_getbits_base d 2 3; Some (Some (lengths ! (num - 1), l), d1) })
      else if symb = 17 then
        do { (l, d1) \<leftarrow> tinf_getbits_base d 3 3; Some (Some (0, l), d1) }
      else if symb = 18 then
        do { (l, d1) \<leftarrow> tinf_getbits_base d 7 11; Some (Some (0, l), d1) }
      else Some (Some (symb, 1), d))"

lemma rle_symbol_pos:
  "rle_symbol d lengths num symb = Some (Some (v, l), d') \<Longrightarrow> 0 < l"
  by (auto simp: rle_symbol_def split: if_splits Option.bind_splits
      dest!: tinf_getbits_base_ge)

text \<open>\<^verbatim>\<open>while (length--) lengths[num++] = sym;\<close>\<close>

definition fill_lengths :: "nat list \<Rightarrow> nat \<Rightarrow> nat \<Rightarrow> nat \<Rightarrow> nat list" where
  "fill_lengths lengths num v l = fold (\<lambda>i xs. xs[i := v]) [num..<num + l] lengths"

text \<open>The loop of lines 306-345, \<open>tot\<close> being \<^verbatim>\<open>hlit + hdist\<close>.\<close>

function decode_lengths ::
  "tinf_data \<Rightarrow> tinf_tree \<Rightarrow> nat list \<Rightarrow> nat \<Rightarrow> nat \<Rightarrow> (status \<times> nat list \<times> tinf_data) option" where
  "decode_lengths d lt lengths num tot =
     (if num < tot then
        do {
          (symb, d1) \<leftarrow> tinf_decode_symbol d lt;
          if int symb > max_sym lt then Some (TINF_DATA_ERROR, lengths, d1)
          else do {
            (r, d2) \<leftarrow> rle_symbol d1 lengths num symb;
            case r of
              None \<Rightarrow> Some (TINF_DATA_ERROR, lengths, d2)
            | Some (v, l) \<Rightarrow>
                if l > tot - num then Some (TINF_DATA_ERROR, lengths, d2)
                else decode_lengths d2 lt (fill_lengths lengths num v l) (num + l) tot
          }
        }
      else Some (TINF_OK, lengths, d))"
  by pat_completeness auto
termination
  by (relation "measure (\<lambda>(d, lt, lengths, num, tot). tot - num)")
     (auto dest: rle_symbol_pos)

text \<open>
  The local array \<^verbatim>\<open>lengths[288 + 32]\<close> is not initialised by the C code beyond
  its first 19 entries; here it starts as zeros. Every entry the code reads has
  been written before.
\<close>

definition tinf_decode_trees :: "tinf_data \<Rightarrow> (status \<times> tinf_data) option" where
  "tinf_decode_trees d =
     do {
       (hlit, d1) \<leftarrow> tinf_getbits_base d 5 257;
       (hdist, d2) \<leftarrow> tinf_getbits_base d1 5 1;
       (hclen, d3) \<leftarrow> tinf_getbits_base d2 4 4;
       if hlit > 286 \<or> hdist > 30 then Some (TINF_DATA_ERROR, d3)
       else do {
         (lengths1, d4) \<leftarrow> read_clens d3 (replicate 320 0) (take hclen clcidx);
         (res, lt) \<leftarrow> tinf_build_tree (ltree d4) lengths1 19;
         let d5 = d4\<lparr>ltree := lt\<rparr> in
         if res \<noteq> TINF_OK then Some (res, d5)
         else if max_sym lt = - 1 then Some (TINF_DATA_ERROR, d5)
         else do {
           (res, lengths2, d6) \<leftarrow> decode_lengths d5 lt lengths1 0 (hlit + hdist);
           if res \<noteq> TINF_OK then Some (res, d6)
           else if lengths2 ! 256 = 0 then Some (TINF_DATA_ERROR, d6)
           else do {
             (res, lt') \<leftarrow> tinf_build_tree (ltree d6) lengths2 hlit;
             let d7 = d6\<lparr>ltree := lt'\<rparr> in
             if res \<noteq> TINF_OK then Some (res, d7)
             else do {
               (res, dt') \<leftarrow> tinf_build_tree (dtree d7) (drop hlit lengths2) hdist;
               Some (res, d7\<lparr>dtree := dt'\<rparr>)
             }
           }
         }
       }
     }"

section \<open>Block inflate functions\<close>

text \<open>
  The match copy of lines 455-457: \<^verbatim>\<open>d->dest[i] = d->dest[i - offs]\<close> for
  \<open>i = 0, 1, ..., length - 1\<close> in this order.
\<close>

function copy_match :: "tinf_data \<Rightarrow> nat \<Rightarrow> nat \<Rightarrow> nat \<Rightarrow> tinf_data option" where
  "copy_match d offs len i =
     (if i < len then
        do {
          b \<leftarrow> dest_read d (int (dest d) + int i - int offs);
          d1 \<leftarrow> dest_write d (dest d + i) b;
          copy_match d1 offs len (i + 1)
        }
      else Some d)"
  by pat_completeness auto
termination
  by (relation "measure (\<lambda>(d, offs, len, i). len - i)") auto

text \<open>
  Lines 446-460: the two checks on the decoded match, the copy, and the advance
  of \<^verbatim>\<open>dest\<close> and \<^verbatim>\<open>destLen\<close>. The first component of the result is \<open>Some\<close> of
  the status the C function returns, or \<open>None\<close> when the symbol loop goes on.
\<close>

definition copy_checked ::
  "tinf_data \<Rightarrow> nat \<Rightarrow> nat \<Rightarrow> (status option \<times> tinf_data) option" where
  "copy_checked d offs len =
     (if offs > destLen d then Some (Some TINF_DATA_ERROR, d)
      else if int (destEnd d) - int (dest d) < int len then Some (Some TINF_BUF_ERROR, d)
      else do {
        d1 \<leftarrow> copy_match d offs len 0;
        Some (None, d1\<lparr>dest := dest d1 + len, destLen := (destLen d1 + len) mod 2 ^ 32\<rparr>)
      })"

text \<open>
  Lines 421-444: the branch of the symbol loop for a symbol above 256, up to the
  decoded match length and offset. \<open>None\<close> in the first component is a
  \<^verbatim>\<open>return TINF_DATA_ERROR\<close>.
\<close>

definition decode_match ::
  "tinf_data \<Rightarrow> tinf_tree \<Rightarrow> tinf_tree \<Rightarrow> nat \<Rightarrow> ((nat \<times> nat) option \<times> tinf_data) option" where
  "decode_match d lt dt symb =
     (if int symb > max_sym lt \<or> symb - 257 > 28 \<or> max_sym dt = - 1
      then Some (None, d)
      else do {
        (len, d1) \<leftarrow> tinf_getbits_base d (length_bits ! (symb - 257)) (length_base ! (symb - 257));
        (dist, d2) \<leftarrow> tinf_decode_symbol d1 dt;
        if int dist > max_sym dt \<or> dist > 29 then Some (None, d2)
        else do {
          (offs, d3) \<leftarrow> tinf_getbits_base d2 (dist_bits ! dist) (dist_base ! dist);
          Some (Some (len, offs), d3)
        }
      })"

text \<open>Lines 421-461: the whole branch.\<close>

definition inflate_match ::
  "tinf_data \<Rightarrow> tinf_tree \<Rightarrow> tinf_tree \<Rightarrow> nat \<Rightarrow> (status option \<times> tinf_data) option" where
  "inflate_match d lt dt symb =
     do {
       (r, d3) \<leftarrow> decode_match d lt dt symb;
       case r of
         None \<Rightarrow> Some (Some TINF_DATA_ERROR, d3)
       | Some (len, offs) \<Rightarrow> copy_checked d3 offs len
     }"

text \<open>Lines 413-419: a literal.\<close>

definition inflate_literal :: "tinf_data \<Rightarrow> nat \<Rightarrow> (status option \<times> tinf_data) option" where
  "inflate_literal d symb =
     (if dest d = destEnd d then Some (Some TINF_BUF_ERROR, d)
      else do {
        d1 \<leftarrow> dest_write d (dest d) (of_nat symb);
        Some (None, d1\<lparr>dest := dest d1 + 1, destLen := (destLen d1 + 1) mod 2 ^ 32\<rparr>)
      })"

text \<open>\<^verbatim>\<open>tinf_inflate_uncompressed_block\<close>; first its copy loop (lines 497-499).\<close>

fun stored_copy :: "tinf_data \<Rightarrow> nat \<Rightarrow> tinf_data option" where
  "stored_copy d 0 = Some d"
| "stored_copy d (Suc i) =
     do {
       b \<leftarrow> src_read d (source d);
       d1 \<leftarrow> dest_write d (dest d) b;
       stored_copy (d1\<lparr>dest := dest d1 + 1, source := source d1 + 1\<rparr>) i
     }"

definition tinf_inflate_uncompressed_block :: "tinf_data \<Rightarrow> (status \<times> tinf_data) option" where
  "tinf_inflate_uncompressed_block d =
     (if int (sourceEnd d) - int (source d) < 4 then Some (TINF_DATA_ERROR, d)
      else do {
        len \<leftarrow> read_le16 d (source d);
        invlength \<leftarrow> read_le16 d (source d + 2);
        if len \<noteq> (NOT invlength AND 0x0000FFFF) then Some (TINF_DATA_ERROR, d)
        else
          let d1 = d\<lparr>source := source d + 4\<rparr> in
          if int (sourceEnd d1) - int (source d1) < int (unat len) then Some (TINF_DATA_ERROR, d1)
          else if int (destEnd d1) - int (dest d1) < int (unat len) then Some (TINF_BUF_ERROR, d1)
          else do {
            d2 \<leftarrow> stored_copy d1 (unat len);
            Some (TINF_OK,
                  d2\<lparr>tag := 0, bitcount := 0, destLen := (destLen d2 + unat len) mod 2 ^ 32\<rparr>)
          }
      })"

declare refill_loop.simps [simp del] decode_loop.simps [simp del] decode_lengths.simps [simp del]
  copy_match.simps [simp del]

section \<open>Bit accounting\<close>

text \<open>
  The number of bits the reader can still deliver from the source, plus one; zero once
  the source is exhausted and the overflow flag is set.
\<close>

definition bits_left :: "tinf_data \<Rightarrow> nat" where
  "bits_left d =
     (if overflow d \<and> sourceEnd d \<le> source d then 0
      else 1 + 8 * (sourceEnd d - source d) + bitcount d)"

text \<open>
  \<open>reads_on d d'\<close>: \<open>d'\<close> comes from \<open>d\<close> by reading bits only. The two memory
  regions, the write cursor and the trees are untouched, the overflow flag is
  sticky and the number of bits left does not grow.
\<close>

definition reads_on :: "tinf_data \<Rightarrow> tinf_data \<Rightarrow> bool" where
  "reads_on d d' \<longleftrightarrow>
     src d' = src d \<and> out d' = out d \<and> dest d' = dest d \<and> destLen d' = destLen d \<and>
     ltree d' = ltree d \<and> dtree d' = dtree d \<and> source d \<le> source d' \<and>
     (overflow d \<longrightarrow> overflow d') \<and> bits_left d' \<le> bits_left d"

definition reads_some :: "tinf_data \<Rightarrow> tinf_data \<Rightarrow> bool" where
  "reads_some d d' \<longleftrightarrow> reads_on d d' \<and> (\<not> overflow d' \<longrightarrow> bits_left d' < bits_left d)"

lemma reads_on_refl [simp]: "reads_on d d"
  by (simp add: reads_on_def)

lemma reads_on_trans: "reads_on a b \<Longrightarrow> reads_on b c \<Longrightarrow> reads_on a c"
  by (auto simp: reads_on_def)

lemma reads_some_on: "reads_some a b \<Longrightarrow> reads_on b c \<Longrightarrow> reads_some a c"
  by (auto simp: reads_some_def reads_on_def)

lemma reads_on_some: "reads_on a b \<Longrightarrow> reads_some b c \<Longrightarrow> reads_some a c"
  by (auto simp: reads_some_def reads_on_def)

lemma reads_some_imp_on: "reads_some a b \<Longrightarrow> reads_on a b"
  by (simp add: reads_some_def)

lemma refill_loop_reads_on:
  "refill_loop d num = Some d' \<Longrightarrow> reads_on d d'"
proof (induction d num arbitrary: d' rule: refill_loop.induct)
  case (1 d num)
  show ?case
  proof (cases "bitcount d < num")
    case False
    with "1.prems" show ?thesis by (simp add: refill_loop.simps [of d num])
  next
    case more: True
    show ?thesis
    proof (cases "source d \<noteq> sourceEnd d")
      case True
      from "1.prems" more True obtain b where
        b: "src_read d (source d) = Some b" and lt: "\<not> 32 \<le> bitcount d" and
        r: "refill_loop (d\<lparr>tag := tag d OR push_bit (bitcount d) (ucast b),
                          source := source d + 1, bitcount := bitcount d + 8\<rparr>) num = Some d'"
        by (auto simp: refill_loop.simps [of d num] split: option.splits if_splits)
      from b have "source d < sourceEnd d"
        by (auto simp: src_read_def sourceEnd_def split: if_splits)
      then have "reads_on d (d\<lparr>tag := tag d OR push_bit (bitcount d) (ucast b),
                          source := source d + 1, bitcount := bitcount d + 8\<rparr>)"
        by (auto simp: reads_on_def bits_left_def sourceEnd_def)
      moreover have "reads_on (d\<lparr>tag := tag d OR push_bit (bitcount d) (ucast b),
                          source := source d + 1, bitcount := bitcount d + 8\<rparr>) d'"
        using "1.IH"(1) [OF more True b lt r] .
      ultimately show ?thesis by (rule reads_on_trans)
    next
      case False
      with "1.prems" more have
        r: "refill_loop (d\<lparr>overflow := True, bitcount := bitcount d + 8\<rparr>) num = Some d'"
        by (auto simp: refill_loop.simps [of d num])
      from False have "reads_on d (d\<lparr>overflow := True, bitcount := bitcount d + 8\<rparr>)"
        by (auto simp: reads_on_def bits_left_def sourceEnd_def)
      moreover have "reads_on (d\<lparr>overflow := True, bitcount := bitcount d + 8\<rparr>) d'"
        using "1.IH"(2) [OF more _ r] False by simp
      ultimately show ?thesis by (rule reads_on_trans)
    qed
  qed
qed

lemma tinf_getbits_reads_on:
  "tinf_getbits d num = Some (v, d') \<Longrightarrow> reads_on d d'"
  by (auto simp: tinf_getbits_def tinf_refill_def tinf_getbits_no_refill_def
        reads_on_def bits_left_def sourceEnd_def
      split: if_splits Option.bind_splits dest!: refill_loop_reads_on)

lemma tinf_getbits_reads_some:
  "tinf_getbits d num = Some (v, d') \<Longrightarrow> 0 < num \<Longrightarrow> reads_some d d'"
  by (auto simp: tinf_getbits_def tinf_refill_def tinf_getbits_no_refill_def
        reads_on_def reads_some_def bits_left_def sourceEnd_def
      split: if_splits Option.bind_splits dest!: refill_loop_reads_on)

lemma tinf_getbits_base_reads_on:
  "tinf_getbits_base d num base = Some (v, d') \<Longrightarrow> reads_on d d'"
  by (auto simp: tinf_getbits_base_def split: if_splits Option.bind_splits
      dest: tinf_getbits_reads_on)

lemma decode_loop_reads_some:
  "decode_loop d t sm cur len = Some (v, d') \<Longrightarrow> reads_some d d'"
proof (induction d t sm cur len arbitrary: v d' rule: decode_loop.induct)
  case (1 d t sm cur len)
  from "1.prems" obtain b d1 where
    g: "tinf_getbits d 1 = Some (b, d1)"
    by (auto simp: decode_loop.simps [of d t sm cur len] split: Option.bind_splits)
  have s: "reads_some d d1" using g by (rule tinf_getbits_reads_some) simp
  show ?case
  proof (cases "0 \<le> 2 * cur + int b - int (table t ! (len + 1))")
    case True
    with "1.prems" g have len: "\<not> 15 < len + 1" and
      r: "decode_loop d1 t (sm + int (table t ! (len + 1)))
            (2 * cur + int b - int (table t ! (len + 1))) (len + 1) = Some (v, d')"
      by (auto simp: decode_loop.simps [of d t sm cur len] Let_def split: if_splits)
    have "reads_some d1 d'"
      using "1.IH" [OF g refl refl refl len refl refl True r] .
    with s show ?thesis by (blast intro: reads_some_on reads_some_imp_on)
  next
    case False
    with "1.prems" g have "d' = d1"
      by (auto simp: decode_loop.simps [of d t sm cur len] Let_def split: if_splits)
    with s show ?thesis by simp
  qed
qed

lemma tinf_decode_symbol_reads_some:
  "tinf_decode_symbol d t = Some (v, d') \<Longrightarrow> reads_some d d'"
  unfolding tinf_decode_symbol_def by (rule decode_loop_reads_some)

lemma read_clens_reads_on:
  "read_clens d lengths ks = Some (ls, d') \<Longrightarrow> reads_on d d'"
proof (induction ks arbitrary: d lengths)
  case Nil
  then show ?case by simp
next
  case (Cons k ks)
  then show ?case
    by (auto split: Option.bind_splits dest!: tinf_getbits_reads_on intro: reads_on_trans)
qed

lemma rle_symbol_reads_on:
  "rle_symbol d lengths num symb = Some (r, d') \<Longrightarrow> reads_on d d'"
  by (auto simp: rle_symbol_def split: if_splits Option.bind_splits
      dest: tinf_getbits_base_reads_on)

lemma decode_lengths_reads_on:
  "decode_lengths d lt lengths num tot = Some (r, ls, d') \<Longrightarrow> reads_on d d'"
proof (induction d lt lengths num tot arbitrary: r ls d' rule: decode_lengths.induct)
  case (1 d lt lengths num tot)
  show ?case
  proof (cases "num < tot")
    case False
    with "1.prems" show ?thesis by (simp add: decode_lengths.simps [of d lt lengths num tot])
  next
    case True
    from "1.prems" True obtain symb d1 where
      g: "tinf_decode_symbol d lt = Some (symb, d1)"
      by (auto simp: decode_lengths.simps [of d lt lengths num tot] split: Option.bind_splits)
    have s: "reads_on d d1"
      using g by (blast intro: reads_some_imp_on tinf_decode_symbol_reads_some)
    show ?thesis
    proof (cases "int symb > max_sym lt")
      case True
      with "1.prems" \<open>num < tot\<close> g have "d' = d1"
        by (auto simp: decode_lengths.simps [of d lt lengths num tot])
      with s show ?thesis by simp
    next
      case ok: False
      from "1.prems" True g ok obtain r2 d2 where
        h: "rle_symbol d1 lengths num symb = Some (r2, d2)"
        by (auto simp: decode_lengths.simps [of d lt lengths num tot] split: Option.bind_splits)
      have s2: "reads_on d d2"
        using s h by (blast intro: reads_on_trans rle_symbol_reads_on)
      show ?thesis
      proof (cases r2)
        case None
        with "1.prems" True g ok h have "d' = d2"
          by (auto simp: decode_lengths.simps [of d lt lengths num tot])
        with s2 show ?thesis by simp
      next
        case (Some vl)
        obtain v l where vl: "vl = (v, l)" by (cases vl)
        show ?thesis
        proof (cases "l > tot - num")
          case True
          with "1.prems" \<open>num < tot\<close> g ok h Some vl have "d' = d2"
            by (auto simp: decode_lengths.simps [of d lt lengths num tot])
          with s2 show ?thesis by simp
        next
          case False
          with "1.prems" \<open>num < tot\<close> g ok h Some vl have
            r: "decode_lengths d2 lt (fill_lengths lengths num v l) (num + l) tot = Some (r, ls, d')"
            by (auto simp: decode_lengths.simps [of d lt lengths num tot])
          have "reads_on d2 d'"
            using "1.IH" [OF \<open>num < tot\<close> g refl ok h refl _ _ False r] Some vl by simp
          with s2 show ?thesis by (rule reads_on_trans)
        qed
      qed
    qed
  qed
qed

text \<open>
  \<open>runs_on d d'\<close>: what every part of the decoder guarantees, whatever it returns.
\<close>

definition runs_on :: "tinf_data \<Rightarrow> tinf_data \<Rightarrow> bool" where
  "runs_on d d' \<longleftrightarrow>
     src d' = src d \<and> length (out d') = length (out d) \<and>
     (overflow d \<longrightarrow> overflow d') \<and> bits_left d' \<le> bits_left d"

lemma runs_on_refl [simp]: "runs_on d d"
  by (simp add: runs_on_def)

lemma runs_on_trans: "runs_on a b \<Longrightarrow> runs_on b c \<Longrightarrow> runs_on a c"
  by (auto simp: runs_on_def)

lemma reads_on_runs_on: "reads_on d d' \<Longrightarrow> runs_on d d'"
  by (simp add: reads_on_def runs_on_def)

lemma bits_left_cong:
  "src d' = src d \<Longrightarrow> source d' = source d \<Longrightarrow> bitcount d' = bitcount d \<Longrightarrow>
   overflow d' = overflow d \<Longrightarrow> bits_left d' = bits_left d"
  by (simp add: bits_left_def sourceEnd_def)

lemma copy_match_frame:
  "copy_match d offs len i = Some d' \<Longrightarrow>
   src d' = src d \<and> source d' = source d \<and> tag d' = tag d \<and> bitcount d' = bitcount d \<and>
   overflow d' = overflow d \<and> dest d' = dest d \<and> destLen d' = destLen d \<and>
   ltree d' = ltree d \<and> dtree d' = dtree d \<and> length (out d') = length (out d)"
proof (induction d offs len i arbitrary: d' rule: copy_match.induct)
  case (1 d offs len i)
  show ?case
  proof (cases "i < len")
    case False
    with "1.prems" show ?thesis by (simp add: copy_match.simps [of d offs len i])
  next
    case True
    from "1.prems" True obtain b d1 where
      b: "dest_read d (int (dest d) + int i - int offs) = Some b" and
      w: "dest_write d (dest d + i) b = Some d1" and
      r: "copy_match d1 offs len (i + 1) = Some d'"
      by (auto simp: copy_match.simps [of d offs len i] split: Option.bind_splits)
    from w have "d1 = d\<lparr>out := (out d)[dest d + i := b]\<rparr>"
      by (auto simp: dest_write_def split: if_splits)
    with "1.IH" [OF True b w r] show ?thesis by simp
  qed
qed

lemma copy_checked_runs_on:
  "copy_checked d offs len = Some (r, d') \<Longrightarrow> runs_on d d'"
  by (auto simp: copy_checked_def runs_on_def bits_left_def sourceEnd_def
      split: if_splits Option.bind_splits dest!: copy_match_frame)

lemma copy_checked_bits:
  "copy_checked d offs len = Some (r, d') \<Longrightarrow>
   bits_left d' = bits_left d \<and> overflow d' = overflow d"
  by (auto simp: copy_checked_def bits_left_def sourceEnd_def
      split: if_splits Option.bind_splits dest!: copy_match_frame)

lemma decode_match_reads_on:
  assumes "decode_match d lt dt symb = Some (r, d')"
  shows "reads_on d d'"
proof (cases "int symb > max_sym lt \<or> symb - 257 > 28 \<or> max_sym dt = - 1")
  case True
  with assms show ?thesis by (auto simp: decode_match_def)
next
  case False
  with assms obtain len d1 dist d2 where
    a: "tinf_getbits_base d (length_bits ! (symb - 257)) (length_base ! (symb - 257)) = Some (len, d1)"
    and b: "tinf_decode_symbol d1 dt = Some (dist, d2)"
    by (auto simp: decode_match_def split: Option.bind_splits)
  have s: "reads_on d d2"
    using a b
    by (blast intro: reads_on_trans reads_some_imp_on
        tinf_getbits_base_reads_on tinf_decode_symbol_reads_some)
  show ?thesis
  proof (cases "int dist > max_sym dt \<or> dist > 29")
    case True
    with assms False a b have "d' = d2" by (auto simp: decode_match_def)
    with s show ?thesis by simp
  next
    case ok: False
    with assms False a b obtain offs where
      c: "tinf_getbits_base d2 (dist_bits ! dist) (dist_base ! dist) = Some (offs, d')"
      by (auto simp: decode_match_def split: Option.bind_splits)
    from s c show ?thesis
      by (blast intro: reads_on_trans tinf_getbits_base_reads_on)
  qed
qed

lemma inflate_match_runs_on:
  assumes "inflate_match d lt dt symb = Some (r, d')"
  shows "runs_on d d'"
proof -
  from assms obtain r3 d3 where
    a: "decode_match d lt dt symb = Some (r3, d3)"
    by (auto simp: inflate_match_def split: Option.bind_splits)
  then have s: "runs_on d d3"
    by (blast intro: reads_on_runs_on decode_match_reads_on)
  show ?thesis
  proof (cases r3)
    case None
    with assms a have "d' = d3" by (simp add: inflate_match_def)
    with s show ?thesis by simp
  next
    case (Some lo)
    with assms a obtain len offs where "copy_checked d3 offs len = Some (r, d')"
      by (cases lo) (simp add: inflate_match_def)
    with s show ?thesis by (blast intro: runs_on_trans copy_checked_runs_on)
  qed
qed

lemma inflate_literal_runs_on:
  "inflate_literal d symb = Some (r, d') \<Longrightarrow> runs_on d d'"
  by (auto simp: inflate_literal_def dest_write_def runs_on_def bits_left_def sourceEnd_def
      split: if_splits Option.bind_splits)

lemma copy_checked_not_ok:
  "copy_checked d offs len = Some (Some st, d') \<Longrightarrow> st \<noteq> TINF_OK"
  by (auto simp: copy_checked_def split: if_splits Option.bind_splits)

lemma inflate_match_not_ok:
  "inflate_match d lt dt symb = Some (Some st, d') \<Longrightarrow> st \<noteq> TINF_OK"
  by (auto simp: inflate_match_def split: Option.bind_splits option.splits
      dest: copy_checked_not_ok)

lemma inflate_literal_not_ok:
  "inflate_literal d symb = Some (Some st, d') \<Longrightarrow> st \<noteq> TINF_OK"
  by (auto simp: inflate_literal_def split: if_splits Option.bind_splits)

text \<open>
  \<^verbatim>\<open>tinf_inflate_block_data\<close>: the symbol loop \<^verbatim>\<open>for (;;)\<close>. It ends because each
  round takes at least one bit from the source or finds the overflow flag set.
\<close>

function tinf_inflate_block_data ::
  "tinf_data \<Rightarrow> tinf_tree \<Rightarrow> tinf_tree \<Rightarrow> (status \<times> tinf_data) option" where
  "tinf_inflate_block_data d lt dt =
     do {
       (symb, d1) \<leftarrow> tinf_decode_symbol d lt;
       if overflow d1 then Some (TINF_DATA_ERROR, d1)
       else if symb = 256 then Some (TINF_OK, d1)
       else do {
         (r, d2) \<leftarrow> (if symb < 256 then inflate_literal d1 symb
                      else inflate_match d1 lt dt symb);
         case r of
           Some st \<Rightarrow> Some (st, d2)
         | None \<Rightarrow> tinf_inflate_block_data d2 lt dt
       }
     }"
  by pat_completeness auto
termination
proof (relation "measure (\<lambda>(d, lt, dt). bits_left d)", goal_cases)
  case 1
  show ?case by simp
next
  case (2 d lt dt x symb d1 y r d2)
  then have "reads_some d d1"
    by (auto dest: tinf_decode_symbol_reads_some)
  moreover from 2 have "runs_on d1 d2"
    by (auto split: if_splits dest: inflate_literal_runs_on inflate_match_runs_on)
  ultimately show ?case using 2
    by (auto simp: reads_some_def runs_on_def)
qed


declare tinf_inflate_block_data.simps [simp del]

lemma tinf_inflate_block_data_runs_on:
  "tinf_inflate_block_data d lt dt = Some (st, d') \<Longrightarrow>
   runs_on d d' \<and> (st = TINF_OK \<longrightarrow> \<not> overflow d' \<and> bits_left d' < bits_left d)"
proof (induction d lt dt arbitrary: st d' rule: tinf_inflate_block_data.induct)
  case (1 d lt dt)
  from "1.prems" obtain symb d1 where
    g: "tinf_decode_symbol d lt = Some (symb, d1)"
    by (auto simp: tinf_inflate_block_data.simps [of d lt dt] split: Option.bind_splits)
  have s: "reads_some d d1" using g by (rule tinf_decode_symbol_reads_some)
  then have s': "runs_on d d1" by (blast intro: reads_some_imp_on reads_on_runs_on)
  show ?case
  proof (cases "overflow d1 \<or> symb = 256")
    case True
    with "1.prems" g have "d' = d1" "st = TINF_OK \<longrightarrow> \<not> overflow d1"
      by (auto simp: tinf_inflate_block_data.simps [of d lt dt] split: if_splits)
    with s s' show ?thesis by (auto simp: reads_some_def)
  next
    case False
    with "1.prems" g obtain r d2 where
      h: "(if symb < 256 then inflate_literal d1 symb else inflate_match d1 lt dt symb) = Some (r, d2)"
      by (auto simp: tinf_inflate_block_data.simps [of d lt dt] split: Option.bind_splits)
    then have t: "runs_on d1 d2"
      by (auto split: if_splits dest: inflate_literal_runs_on inflate_match_runs_on)
    show ?thesis
    proof (cases r)
      case (Some st')
      with "1.prems" g False h have "d' = d2" "st \<noteq> TINF_OK"
        by (auto simp: tinf_inflate_block_data.simps [of d lt dt]
            dest: inflate_literal_not_ok inflate_match_not_ok split: if_splits)
      with s' t show ?thesis by (auto intro: runs_on_trans)
    next
      case None
      with "1.prems" g False h have
        r: "tinf_inflate_block_data d2 lt dt = Some (st, d')"
        by (auto simp: tinf_inflate_block_data.simps [of d lt dt])
      from False have o: "\<not> overflow d1" "symb \<noteq> 256" by auto
      have "runs_on d2 d' \<and> (st = TINF_OK \<longrightarrow> \<not> overflow d' \<and> bits_left d' < bits_left d2)"
        using "1.IH" [OF g refl o h refl None r] .
      with s t o show ?thesis
        by (auto simp: reads_some_def runs_on_def reads_on_def)
    qed
  qed
qed

lemma stored_copy_frame:
  "stored_copy d n = Some d' \<Longrightarrow>
   src d' = src d \<and> source d' = source d + n \<and> tag d' = tag d \<and> bitcount d' = bitcount d \<and>
   overflow d' = overflow d \<and> dest d' = dest d + n \<and> destLen d' = destLen d \<and>
   ltree d' = ltree d \<and> dtree d' = dtree d \<and> length (out d') = length (out d)"
proof (induction n arbitrary: d)
  case 0
  then show ?case by simp
next
  case (Suc n)
  from Suc.prems obtain b where
    r: "stored_copy (d\<lparr>out := (out d)[dest d := b], dest := dest d + 1, source := source d + 1\<rparr>) n
          = Some d'"
    by (auto simp: dest_write_def split: Option.bind_splits if_splits)
  from Suc.IH [OF r] show ?case by simp
qed

lemma tinf_inflate_uncompressed_block_runs_on:
  assumes "tinf_inflate_uncompressed_block d = Some (st, d')"
  shows "runs_on d d' \<and> (st = TINF_OK \<longrightarrow> bits_left d' < bits_left d)"
proof (cases "st = TINF_OK")
  case False
  with assms show ?thesis
    by (auto simp: tinf_inflate_uncompressed_block_def Let_def runs_on_def bits_left_def
          sourceEnd_def split: if_splits Option.bind_splits)
next
  case True
  with assms obtain n d2 where
    a: "source d + 4 \<le> length (src d)" and
    c: "stored_copy (d\<lparr>source := source d + 4\<rparr>) n = Some d2" and
    e: "src d' = src d2" "source d' = source d2" "bitcount d' = 0" "overflow d' = overflow d2"
       "length (out d') = length (out d2)"
    by (fastforce simp: tinf_inflate_uncompressed_block_def Let_def sourceEnd_def
        split: if_splits Option.bind_splits)
  from stored_copy_frame [OF c] a e show ?thesis
    by (auto simp: runs_on_def bits_left_def sourceEnd_def)
qed

lemma tinf_decode_trees_runs_on:
  assumes "tinf_decode_trees d = Some (st, d')"
  shows "runs_on d d'"
proof -
  from assms obtain hlit d1 hdist d2 hclen d3 where
    a: "tinf_getbits_base d 5 257 = Some (hlit, d1)"
       "tinf_getbits_base d1 5 1 = Some (hdist, d2)"
       "tinf_getbits_base d2 4 4 = Some (hclen, d3)"
    by (auto simp: tinf_decode_trees_def split: Option.bind_splits)
  then have s3: "runs_on d d3"
    by (blast intro: runs_on_trans reads_on_runs_on tinf_getbits_base_reads_on)
  show ?thesis
  proof (cases "hlit > 286 \<or> hdist > 30")
    case True
    with assms a have "d' = d3" by (auto simp: tinf_decode_trees_def)
    with s3 show ?thesis by simp
  next
    case False
    with assms a obtain lengths1 d4 res lt where
      b: "read_clens d3 (replicate 320 0) (take hclen clcidx) = Some (lengths1, d4)" and
      c: "tinf_build_tree (ltree d4) lengths1 19 = Some (res, lt)"
      by (auto simp: tinf_decode_trees_def split: Option.bind_splits)
    have s5: "runs_on d (d4\<lparr>ltree := lt\<rparr>)"
      using s3 read_clens_reads_on [OF b]
      by (auto simp: runs_on_def reads_on_def bits_left_def sourceEnd_def)
    show ?thesis
    proof (cases "res \<noteq> TINF_OK \<or> max_sym lt = - 1")
      case True
      with assms a False b c have "d' = d4\<lparr>ltree := lt\<rparr>"
        by (auto simp: tinf_decode_trees_def Let_def split: if_splits)
      with s5 show ?thesis by simp
    next
      case ok: False
      with assms a False b c obtain res2 lengths2 d6 where
        e: "decode_lengths (d4\<lparr>ltree := lt\<rparr>) lt lengths1 0 (hlit + hdist) = Some (res2, lengths2, d6)"
        by (auto simp: tinf_decode_trees_def Let_def split: Option.bind_splits)
      have s6: "runs_on d d6"
        using s5 decode_lengths_reads_on [OF e] by (blast intro: runs_on_trans reads_on_runs_on)
      from assms a False b c ok e have
        "src d' = src d6 \<and> source d' = source d6 \<and> bitcount d' = bitcount d6 \<and>
         overflow d' = overflow d6 \<and> out d' = out d6"
        by (auto simp: tinf_decode_trees_def Let_def split: Option.bind_splits if_splits)
      with s6 show ?thesis
        by (auto simp: runs_on_def bits_left_def sourceEnd_def)
    qed
  qed
qed

definition tinf_inflate_fixed_block :: "tinf_data \<Rightarrow> (status \<times> tinf_data) option" where
  "tinf_inflate_fixed_block d =
     (let d1 = tinf_build_fixed_trees d in tinf_inflate_block_data d1 (ltree d1) (dtree d1))"

definition tinf_inflate_dynamic_block :: "tinf_data \<Rightarrow> (status \<times> tinf_data) option" where
  "tinf_inflate_dynamic_block d =
     do {
       (res, d1) \<leftarrow> tinf_decode_trees d;
       if res \<noteq> TINF_OK then Some (res, d1)
       else tinf_inflate_block_data d1 (ltree d1) (dtree d1)
     }"

text \<open>The \<^verbatim>\<open>switch (btype)\<close> of \<^verbatim>\<open>tinf_uncompress\<close>.\<close>

definition inflate_block :: "tinf_data \<Rightarrow> nat \<Rightarrow> (status \<times> tinf_data) option" where
  "inflate_block d btype =
     (if btype = 0 then tinf_inflate_uncompressed_block d
      else if btype = 1 then tinf_inflate_fixed_block d
      else if btype = 2 then tinf_inflate_dynamic_block d
      else Some (TINF_DATA_ERROR, d))"

lemma inflate_block_runs_on:
  assumes "inflate_block d btype = Some (st, d')"
  shows "runs_on d d' \<and> (st = TINF_OK \<longrightarrow> bits_left d' < bits_left d)"
proof -
  consider "btype = 0" | "btype = 1" | "btype = 2" | "btype \<noteq> 0 \<and> btype \<noteq> 1 \<and> btype \<noteq> 2"
    by blast
  then show ?thesis
  proof cases
    case 1
    with assms show ?thesis
      by (auto simp: inflate_block_def dest: tinf_inflate_uncompressed_block_runs_on)
  next
    case 2
    with assms have
      "tinf_inflate_block_data (tinf_build_fixed_trees d) (ltree (tinf_build_fixed_trees d))
         (dtree (tinf_build_fixed_trees d)) = Some (st, d')"
      by (simp add: inflate_block_def tinf_inflate_fixed_block_def Let_def)
    from tinf_inflate_block_data_runs_on [OF this] show ?thesis
      by (auto simp: runs_on_def tinf_build_fixed_trees_def bits_left_def sourceEnd_def)
  next
    case 3
    with assms obtain res d1 where
      a: "tinf_decode_trees d = Some (res, d1)"
      by (auto simp: inflate_block_def tinf_inflate_dynamic_block_def split: Option.bind_splits)
    note s = tinf_decode_trees_runs_on [OF a]
    show ?thesis
    proof (cases "res \<noteq> TINF_OK")
      case True
      with assms 3 a have "d' = d1" "st \<noteq> TINF_OK"
        by (auto simp: inflate_block_def tinf_inflate_dynamic_block_def)
      with s show ?thesis by simp
    next
      case False
      with assms 3 a have
        "tinf_inflate_block_data d1 (ltree d1) (dtree d1) = Some (st, d')"
        by (auto simp: inflate_block_def tinf_inflate_dynamic_block_def)
      from tinf_inflate_block_data_runs_on [OF this] s show ?thesis
        by (auto simp: runs_on_def)
    qed
  next
    case 4
    with assms show ?thesis by (auto simp: inflate_block_def)
  qed
qed

text \<open>
  The block loop of \<^verbatim>\<open>tinf_uncompress\<close> (lines 562-594). A status other than
  \<^verbatim>\<open>TINF_OK\<close> is the early \<^verbatim>\<open>return res\<close>; \<^verbatim>\<open>TINF_OK\<close> means the loop was left
  after a final block.
\<close>

function inflate_blocks :: "tinf_data \<Rightarrow> (status \<times> tinf_data) option" where
  "inflate_blocks d =
     do {
       (bfinal, d1) \<leftarrow> tinf_getbits d 1;
       (btype, d2) \<leftarrow> tinf_getbits d1 2;
       (res, d3) \<leftarrow> inflate_block d2 btype;
       if res \<noteq> TINF_OK then Some (res, d3)
       else if bfinal = 0 then inflate_blocks d3
       else Some (TINF_OK, d3)
     }"
  by pat_completeness auto
termination
proof (relation "measure bits_left", goal_cases)
  case 1
  show ?case by simp
next
  case (2 d x bfinal d1 y btype d2 z res d3)
  then have "runs_on d d2"
    by (auto dest!: tinf_getbits_reads_on reads_on_runs_on intro: runs_on_trans)
  moreover from 2 have "bits_left d3 < bits_left d2"
    by (auto dest: inflate_block_runs_on)
  ultimately show ?case by (simp add: runs_on_def)
qed

declare inflate_blocks.simps [simp del]

text \<open>
  \<^verbatim>\<open>tinf_uncompress(dest, destLen, source, sourceLen)\<close>. \<open>dst\<close> is the memory
  \<^verbatim>\<open>dest .. dest + *destLen\<close> as the caller passes it, \<open>srcs\<close> the memory
  \<^verbatim>\<open>source .. source + sourceLen\<close>. The two trees of the local \<^verbatim>\<open>struct tinf_data\<close>
  are not initialised by the C code; they start as zeros here.

  The result is the status, the value of \<^verbatim>\<open>*destLen\<close> at return, and the final
  decoder state (whose \<open>out\<close> is the destination memory at return).
\<close>

definition uninit_tree :: tinf_tree where
  "uninit_tree = \<lparr>table = replicate 16 0, trans_tab = replicate 288 0, max_sym = 0\<rparr>"

definition tinf_init :: "byte list \<Rightarrow> byte list \<Rightarrow> tinf_data" where
  "tinf_init dst srcs =
     \<lparr>src = srcs, source = 0, tag = 0, bitcount = 0, overflow = False,
      out = dst, dest = 0, destLen = 0, ltree = uninit_tree, dtree = uninit_tree\<rparr>"

definition tinf_uncompress_state ::
  "byte list \<Rightarrow> byte list \<Rightarrow> (status \<times> nat \<times> tinf_data) option" where
  "tinf_uncompress_state dst srcs =
     do {
       (res, d) \<leftarrow> inflate_blocks (tinf_init dst srcs);
       if res \<noteq> TINF_OK then Some (res, 0, d)
       else if overflow d then Some (TINF_DATA_ERROR, 0, d)
       else Some (TINF_OK, destLen d, d)
     }"

definition tinf_uncompress :: "byte list \<Rightarrow> byte list \<Rightarrow> (status \<times> nat \<times> byte list) option" where
  "tinf_uncompress dst srcs =
     map_option (\<lambda>(res, n, d). (res, n, out d)) (tinf_uncompress_state dst srcs)"

section \<open>The bit reader at rest\<close>

text \<open>
  \<open>reader_ok d\<close>: the read cursor is inside the source region, fewer than eight
  bits are buffered, the tag holds no bit at or above \<open>bitcount\<close>, and once the
  overflow flag is set the source is exhausted and the tag is empty.
\<close>

definition reader_ok :: "tinf_data \<Rightarrow> bool" where
  "reader_ok d \<longleftrightarrow>
     source d \<le> sourceEnd d \<and> bitcount d < 8 \<and> drop_bit (bitcount d) (tag d) = 0 \<and>
     (overflow d \<longrightarrow> source d = sourceEnd d \<and> tag d = 0)"

lemma drop_bit_zero_mono:
  fixes w :: "32 word"
  assumes "drop_bit m w = 0" and "m \<le> n"
  shows "drop_bit n w = 0"
proof -
  have "drop_bit n w = drop_bit (n - m) (drop_bit m w)"
    using assms(2) by (simp add: drop_bit_drop_bit)
  with assms(1) show ?thesis by simp
qed

lemma drop_bit_or_byte:
  fixes w :: "32 word" and b :: byte
  assumes "drop_bit m w = 0"
  shows "drop_bit (m + 8) (w OR push_bit m (ucast b)) = 0"
proof (rule bit_eqI)
  fix k
  have "\<not> bit w (k + (m + 8))"
  proof -
    have "bit (drop_bit m w) (k + 8) = bit w (m + (k + 8))"
      by (simp add: bit_drop_bit_eq)
    with assms show ?thesis by (simp add: ac_simps)
  qed
  moreover have "\<not> bit (ucast b :: 32 word) (k + 8)"
    by (auto simp: bit_ucast_iff dest: bit_imp_le_length)
  ultimately show "bit (drop_bit (m + 8) (w OR push_bit m (ucast b))) k = bit (0 :: 32 word) k"
    by (simp add: bit_drop_bit_eq bit_or_iff bit_push_bit_iff ac_simps)
qed

definition refill_inv :: "tinf_data \<Rightarrow> nat \<Rightarrow> bool" where
  "refill_inv d num \<longleftrightarrow>
     source d \<le> sourceEnd d \<and> bitcount d < num + 8 \<and> drop_bit (bitcount d) (tag d) = 0 \<and>
     (overflow d \<longrightarrow> source d = sourceEnd d \<and> drop_bit num (tag d) = 0)"

lemma refill_loop_total:
  "refill_inv d num \<Longrightarrow> num \<le> 25 \<Longrightarrow>
   \<exists>d'. refill_loop d num = Some d' \<and> refill_inv d' num \<and> num \<le> bitcount d' \<and>
        (overflow d \<longrightarrow> tag d' = tag d) \<and>
        (bitcount d' = bitcount d \<or> bitcount d < num)"
proof (induction d num rule: refill_loop.induct)
  case (1 d num)
  show ?case
  proof (cases "bitcount d < num")
    case False
    with "1.prems" show ?thesis by (simp add: refill_loop.simps [of d num])
  next
    case more: True
    show ?thesis
    proof (cases "source d \<noteq> sourceEnd d")
      case True
      with "1.prems" have lt: "source d < length (src d)" and no: "\<not> overflow d"
        by (auto simp: refill_inv_def sourceEnd_def)
      define b where "b = src d ! source d"
      define d1 where "d1 = d\<lparr>tag := tag d OR push_bit (bitcount d) (ucast b),
                          source := source d + 1, bitcount := bitcount d + 8\<rparr>"
      have rd: "src_read d (source d) = Some b"
        using lt by (simp add: src_read_def b_def)
      have sh: "\<not> 32 \<le> bitcount d" using more "1.prems" by simp
      have "drop_bit (bitcount d + 8) (tag d OR push_bit (bitcount d) (ucast b)) = 0"
        using "1.prems" by (intro drop_bit_or_byte) (simp add: refill_inv_def)
      then have "refill_inv d1 num"
        using "1.prems" lt no more
        by (simp add: refill_inv_def d1_def sourceEnd_def)
      from "1.IH"(1) [OF more True rd sh, folded d1_def, OF this "1.prems"(2)]
      obtain d' where "refill_loop d1 num = Some d'" "refill_inv d' num" "num \<le> bitcount d'"
        by blast
      moreover have "refill_loop d num = refill_loop d1 num"
        using more True rd sh by (simp add: refill_loop.simps [of d num] d1_def)
      ultimately show ?thesis using no more by auto
    next
      case False
      define d1 where "d1 = d\<lparr>overflow := True, bitcount := bitcount d + 8\<rparr>"
      have "refill_inv d1 num"
        using "1.prems" False more
        by (auto simp: refill_inv_def d1_def sourceEnd_def intro: drop_bit_zero_mono)
      from "1.IH"(2) [OF more _ , folded d1_def, OF _ this "1.prems"(2)] False
      obtain d' where "refill_loop d1 num = Some d'" "refill_inv d' num" "num \<le> bitcount d'"
        "tag d' = tag d1"
        by (auto simp: d1_def)
      moreover have "refill_loop d num = refill_loop d1 num"
        using more False by (simp add: refill_loop.simps [of d num] d1_def)
      ultimately show ?thesis using more by (auto simp: d1_def)
    qed
  qed
qed

lemma reader_ok_refill_inv: "reader_ok d \<Longrightarrow> refill_inv d num"
  by (auto simp: reader_ok_def refill_inv_def)

lemma unat_take_bit_less:
  fixes w :: "32 word"
  shows "unat (take_bit n w) < 2 ^ n"
  by (simp add: unsigned_take_bit_eq)

lemma tinf_getbits_total:
  assumes "reader_ok d" and "num \<le> 25"
  shows "\<exists>v d'. tinf_getbits d num = Some (v, d') \<and> reader_ok d' \<and> v < 2 ^ num \<and>
           (overflow d \<longrightarrow> v = 0)"
proof -
  from refill_loop_total [OF reader_ok_refill_inv [OF assms(1)] assms(2)]
  obtain d1 where r: "refill_loop d num = Some d1" and i: "refill_inv d1 num"
    and n: "num \<le> bitcount d1" and t: "overflow d \<longrightarrow> tag d1 = tag d"
    by blast
  define d' where "d' = d1\<lparr>tag := drop_bit num (tag d1), bitcount := bitcount d1 - num\<rparr>"
  have b32: "bitcount d1 \<le> 32" using i assms(2) by (simp add: refill_inv_def)
  have g: "tinf_getbits d num = Some (unat (take_bit num (tag d1)), d')"
    using r n b32 assms(2)
    by (simp add: tinf_getbits_def tinf_refill_def tinf_getbits_no_refill_def d'_def)
  have "drop_bit (bitcount d1 - num) (drop_bit num (tag d1)) = 0"
    using i n by (simp add: refill_inv_def drop_bit_drop_bit)
  then have "reader_ok d'"
    using i n by (auto simp: reader_ok_def refill_inv_def d'_def sourceEnd_def)
  moreover have "overflow d \<longrightarrow> unat (take_bit num (tag d1)) = 0"
    using t assms(1) by (auto simp: reader_ok_def)
  ultimately show ?thesis
    using g unat_take_bit_less [of num "tag d1"] by blast
qed

section \<open>The write cursor and stored blocks\<close>

text \<open>
  \<open>writer_ok d\<close>: the write cursor is inside the destination region and
  \<open>destLen\<close> is the number of bytes written so far, as an \<^verbatim>\<open>unsigned int\<close>.
\<close>

definition writer_ok :: "tinf_data \<Rightarrow> bool" where
  "writer_ok d \<longleftrightarrow> dest d \<le> destEnd d \<and> destLen d = dest d mod 2 ^ 32"

lemma stored_copy_total:
  "source d + n \<le> length (src d) \<Longrightarrow> dest d + n \<le> length (out d) \<Longrightarrow>
   \<exists>d'. stored_copy d n = Some d' \<and>
        out d' = take (dest d) (out d) @ take n (drop (source d) (src d)) @
                 drop (dest d + n) (out d)"
proof (induction n arbitrary: d)
  case 0
  then show ?case by simp
next
  case (Suc n)
  define d1 where
    "d1 = d\<lparr>out := (out d)[dest d := src d ! source d], dest := dest d + 1, source := source d + 1\<rparr>"
  from Suc.prems have "source d1 + n \<le> length (src d1)" "dest d1 + n \<le> length (out d1)"
    by (simp_all add: d1_def)
  from Suc.IH [OF this] obtain d' where
    r: "stored_copy d1 n = Some d'" and
    o: "out d' = take (dest d1) (out d1) @ take n (drop (source d1) (src d1)) @
                 drop (dest d1 + n) (out d1)"
    by blast
  have s: "stored_copy d (Suc n) = stored_copy d1 n"
    using Suc.prems by (simp add: src_read_def dest_write_def d1_def)
  have t: "take (dest d1) (out d1) = take (dest d) (out d) @ [src d ! source d]"
    using Suc.prems by (simp add: d1_def take_Suc_conv_app_nth)
  have u: "take (Suc n) (drop (source d) (src d)) =
           src d ! source d # take n (drop (source d1) (src d1))"
    using Suc.prems by (simp add: d1_def Cons_nth_drop_Suc [symmetric])
  have v: "drop (dest d1 + n) (out d1) = drop (dest d + Suc n) (out d)"
    by (simp add: d1_def)
  from r s o t u v show ?case by simp
qed

lemma unat_ucast_byte: "unat (ucast (b :: byte) :: 32 word) = unat b"
proof -
  have "unat b < 2 ^ 32"
    using unsigned_less [of b, where 'a = nat] by simp
  then show ?thesis
    by (simp add: unsigned_ucast_eq take_bit_nat_eq_self)
qed

lemma read_le16_total:
  assumes "i + 1 < length (src d)"
  shows "\<exists>w. read_le16 d i = Some w \<and>
           unat w = unat (src d ! i) + 256 * unat (src d ! (i + 1))"
proof -
  define b0 where "b0 = src d ! i"
  define b1 where "b1 = src d ! (i + 1)"
  have r: "read_le16 d i = Some ((ucast b0 :: 32 word) OR push_bit 8 (ucast b1))"
    using assms by (simp add: read_le16_def src_read_def b0_def b1_def)
  have "(ucast b0 :: 32 word) OR push_bit 8 (ucast b1) = ucast b0 + push_bit 8 (ucast b1)"
    by (rule disjunctive_add [symmetric])
       (auto simp: bit_ucast_iff bit_push_bit_iff dest: bit_imp_le_length)
  moreover have "unat ((ucast b0 :: 32 word) + push_bit 8 (ucast b1)) = unat b0 + 256 * unat b1"
  proof -
    have "unat b0 < 256" "unat b1 < 256"
      using unsigned_less [of b0, where 'a = nat] unsigned_less [of b1, where 'a = nat]
      by simp_all
    then show ?thesis
      by (simp add: unat_word_ariths push_bit_eq_mult unat_ucast_byte)
  qed
  ultimately show ?thesis using r by (simp add: b0_def b1_def)
qed

lemma not_and_mask16:
  fixes w :: "32 word"
  assumes "unat w < 65536"
  shows "unat (NOT w AND 0x0000FFFF) = 65535 - unat w"
proof -
  have m: "(0x0000FFFF :: 32 word) = mask 16" by (simp add: mask_eq_exp_minus_1)
  have "w < 2 ^ 16"
    using assms by (simp add: word_less_nat_alt)
  then have w: "take_bit 16 w = w"
    by (simp add: take_bit_eq_mask less_mask_eq)
  have "NOT w AND mask 16 = take_bit 16 (NOT w)"
    by (simp add: take_bit_eq_mask)
  also have "\<dots> = mask 16 - take_bit 16 w"
    by (simp add: take_bit_not_eq_mask_diff)
  finally have "NOT w AND 0x0000FFFF = 0xFFFF - w"
    using w by (simp add: m)
  moreover have "unat (0xFFFF - w) = 65535 - unat w"
    using assms by (simp add: unat_sub word_le_nat_alt)
  ultimately show ?thesis by simp
qed

text \<open>The 16-bit little-endian field at index \<open>i\<close> of a byte sequence.\<close>

definition le16 :: "byte list \<Rightarrow> nat \<Rightarrow> nat" where
  "le16 xs i = unat (xs ! i) + 256 * unat (xs ! (i + 1))"

lemma le16_less: "le16 xs i < 65536"
proof -
  have "unat (xs ! i) < 256" "unat (xs ! (i + 1)) < 256"
    using unsigned_less [of "xs ! i", where 'a = nat]
      unsigned_less [of "xs ! (i + 1)", where 'a = nat] by simp_all
  then show ?thesis by (simp add: le16_def)
qed

lemma stored_fields:
  assumes "source d + 4 \<le> length (src d)"
  shows "\<exists>len inv. read_le16 d (source d) = Some len \<and> read_le16 d (source d + 2) = Some inv \<and>
           unat len = le16 (src d) (source d) \<and>
           (len = (NOT inv AND 0x0000FFFF) \<longleftrightarrow>
              le16 (src d) (source d) = 65535 - le16 (src d) (source d + 2))"
proof -
  from assms have "source d + 1 < length (src d)" "source d + 2 + 1 < length (src d)"
    by simp_all
  from read_le16_total [OF this(1)] read_le16_total [OF this(2)]
  obtain len inv where
    l: "read_le16 d (source d) = Some len" "unat len = le16 (src d) (source d)" and
    i: "read_le16 d (source d + 2) = Some inv" "unat inv = le16 (src d) (source d + 2)"
    by (auto simp: le16_def)
  have "unat (NOT inv AND 0x0000FFFF) = 65535 - le16 (src d) (source d + 2)"
    using not_and_mask16 [of inv] le16_less [of "src d" "source d + 2"] i(2) by simp
  then have "len = (NOT inv AND 0x0000FFFF) \<longleftrightarrow>
             le16 (src d) (source d) = 65535 - le16 (src d) (source d + 2)"
    using l(2) by (metis word_unat_eq_iff)
  with l i show ?thesis by blast
qed

lemma stored_block_short:
  "length (src d) < source d + 4 \<Longrightarrow>
   tinf_inflate_uncompressed_block d = Some (TINF_DATA_ERROR, d)"
  by (simp add: tinf_inflate_uncompressed_block_def sourceEnd_def)

lemma stored_block_mismatch:
  assumes "source d + 4 \<le> length (src d)"
    and "le16 (src d) (source d) \<noteq> 65535 - le16 (src d) (source d + 2)"
  shows "tinf_inflate_uncompressed_block d = Some (TINF_DATA_ERROR, d)"
proof -
  from stored_fields [OF assms(1)] assms(2) obtain len inv where
    "read_le16 d (source d) = Some len" "read_le16 d (source d + 2) = Some inv"
    "len \<noteq> (NOT inv AND 0x0000FFFF)"
    by blast
  with assms(1) show ?thesis
    by (simp add: tinf_inflate_uncompressed_block_def sourceEnd_def)
qed

lemma stored_block_copy:
  assumes "source d + 4 \<le> length (src d)"
    and "le16 (src d) (source d) = 65535 - le16 (src d) (source d + 2)"
    and "source d + 4 + le16 (src d) (source d) \<le> length (src d)"
    and "dest d + le16 (src d) (source d) \<le> length (out d)"
  shows "\<exists>d'. tinf_inflate_uncompressed_block d = Some (TINF_OK, d') \<and>
           out d' = take (dest d) (out d) @
                    take (le16 (src d) (source d)) (drop (source d + 4) (src d)) @
                    drop (dest d + le16 (src d) (source d)) (out d) \<and>
           src d' = src d \<and>
           source d' = source d + 4 + le16 (src d) (source d) \<and>
           dest d' = dest d + le16 (src d) (source d) \<and>
           destLen d' = (destLen d + le16 (src d) (source d)) mod 2 ^ 32 \<and>
           tag d' = 0 \<and> bitcount d' = 0 \<and> overflow d' = overflow d \<and>
           ltree d' = ltree d \<and> dtree d' = dtree d"
proof -
  define n where "n = le16 (src d) (source d)"
  from stored_fields [OF assms(1)] assms(2) obtain len inv where
    f: "read_le16 d (source d) = Some len" "read_le16 d (source d + 2) = Some inv"
       "len = (NOT inv AND 0x0000FFFF)" "unat len = n"
    unfolding n_def by blast
  define d1 where "d1 = d\<lparr>source := source d + 4\<rparr>"
  have "source d1 + n \<le> length (src d1)" "dest d1 + n \<le> length (out d1)"
    using assms(3,4) by (simp_all add: d1_def n_def)
  from stored_copy_total [OF this] obtain d2 where
    c: "stored_copy d1 n = Some d2" and
    o: "out d2 = take (dest d1) (out d1) @ take n (drop (source d1) (src d1)) @
                 drop (dest d1 + n) (out d1)"
    by blast
  note fr = stored_copy_frame [OF c]
  have "tinf_inflate_uncompressed_block d =
          Some (TINF_OK, d2\<lparr>tag := 0, bitcount := 0, destLen := (destLen d2 + n) mod 2 ^ 32\<rparr>)"
    using assms(1,3,4) f c
    by (simp add: tinf_inflate_uncompressed_block_def sourceEnd_def destEnd_def Let_def
          d1_def [symmetric])
       (simp add: d1_def n_def)
  with o fr show ?thesis
    by (simp add: d1_def n_def)
qed

lemma refill_loop_position:
  "refill_loop d num = Some d' \<Longrightarrow> \<not> overflow d' \<Longrightarrow>
   8 * source d' + bitcount d = 8 * source d + bitcount d'"
proof (induction d num arbitrary: d' rule: refill_loop.induct)
  case (1 d num)
  show ?case
  proof (cases "bitcount d < num")
    case False
    with "1.prems" show ?thesis by (simp add: refill_loop.simps [of d num])
  next
    case more: True
    show ?thesis
    proof (cases "source d \<noteq> sourceEnd d")
      case True
      from "1.prems" more True obtain b where
        b: "src_read d (source d) = Some b" and lt: "\<not> 32 \<le> bitcount d" and
        r: "refill_loop (d\<lparr>tag := tag d OR push_bit (bitcount d) (ucast b),
                          source := source d + 1, bitcount := bitcount d + 8\<rparr>) num = Some d'"
        by (auto simp: refill_loop.simps [of d num] split: option.splits if_splits)
      from "1.IH"(1) [OF more True b lt r "1.prems"(2)] show ?thesis by simp
    next
      case False
      with "1.prems" more have
        r: "refill_loop (d\<lparr>overflow := True, bitcount := bitcount d + 8\<rparr>) num = Some d'"
        by (auto simp: refill_loop.simps [of d num])
      from refill_loop_reads_on [OF r] "1.prems"(2) show ?thesis
        by (simp add: reads_on_def)
    qed
  qed
qed

lemma tinf_getbits_position:
  "tinf_getbits d num = Some (v, d') \<Longrightarrow> \<not> overflow d' \<Longrightarrow>
   8 * source d' + bitcount d = 8 * source d + bitcount d' + num"
  by (auto simp: tinf_getbits_def tinf_refill_def tinf_getbits_no_refill_def
      split: if_splits Option.bind_splits dest!: refill_loop_position)

lemma shift_keeps_byte:
  fixes b :: byte
  assumes "bc \<le> 24"
  shows "drop_bit bc (push_bit bc (ucast b :: 32 word)) = ucast b"
proof (rule bit_eqI)
  fix k
  show "bit (drop_bit bc (push_bit bc (ucast b :: 32 word))) k = bit (ucast b :: 32 word) k"
    using assms
    by (auto simp: bit_drop_bit_eq bit_push_bit_iff bit_ucast_iff dest: bit_imp_le_length)
qed

lemma nth_take_bound:
  assumes "\<forall>x \<in> set (take n xs). x \<le> (m :: nat)" and "s < n" and "n \<le> length xs"
  shows "xs ! s \<le> m"
proof -
  have "take n xs ! s \<in> set (take n xs)"
    using assms(2,3) by (intro nth_mem) simp
  with assms(1,2) show ?thesis by simp
qed

lemma length_bits_le: "s \<le> 28 \<Longrightarrow> length_bits ! s \<le> 5"
  by (rule nth_take_bound [where n = 29]) (simp_all add: length_bits_def)

lemma dist_bits_le: "s \<le> 29 \<Longrightarrow> dist_bits ! s \<le> 13"
  by (rule nth_take_bound [where n = 30]) (simp_all add: dist_bits_def)

section \<open>The match copy\<close>

lemma copy_match_total:
  "i \<le> len \<Longrightarrow> offs \<le> dest d \<Longrightarrow> dest d + len \<le> length (out d) \<Longrightarrow>
   \<exists>d'. copy_match d offs len i = Some d' \<and>
        (\<forall>k. k < dest d + i \<or> dest d + len \<le> k \<longrightarrow> out d' ! k = out d ! k) \<and>
        (\<forall>j. i \<le> j \<and> j < len \<longrightarrow> out d' ! (dest d + j) = out d' ! (dest d + j - offs))"
proof (induction d offs len i rule: copy_match.induct)
  case (1 d offs len i)
  show ?case
  proof (cases "i < len")
    case False
    then have "copy_match d offs len i = Some d"
      by (simp add: copy_match.simps [of d offs len i])
    with False show ?thesis by auto
  next
    case True
    define p where "p = dest d + i - offs"
    define b where "b = out d ! p"
    define d1 where "d1 = d\<lparr>out := (out d)[dest d + i := b]\<rparr>"
    have p: "int (dest d) + int i - int offs = int p" "p < length (out d)" "p \<le> dest d + i"
      using "1.prems" True by (simp_all add: p_def)
    have rd: "dest_read d (int (dest d) + int i - int offs) = Some b"
      using p by (simp add: dest_read_def b_def)
    have wr: "dest_write d (dest d + i) b = Some d1"
      using "1.prems" True by (simp add: dest_write_def d1_def)
    have "i + 1 \<le> len" "offs \<le> dest d1" "dest d1 + len \<le> length (out d1)"
      using "1.prems" True by (simp_all add: d1_def)
    from "1.IH" [OF True rd wr this] obtain d' where
      r: "copy_match d1 offs len (i + 1) = Some d'" and
      u: "\<And>k. k < dest d + i + 1 \<or> dest d + len \<le> k \<Longrightarrow> out d' ! k = out d1 ! k" and
      v: "\<And>j. i + 1 \<le> j \<Longrightarrow> j < len \<Longrightarrow>
            out d' ! (dest d + j) = out d' ! (dest d + j - offs)"
      by (auto simp: d1_def)
    have c: "copy_match d offs len i = Some d'"
      using True rd wr r by (simp add: copy_match.simps [of d offs len i])
    have u': "out d' ! k = out d ! k" if "k < dest d + i \<or> dest d + len \<le> k" for k
    proof -
      from that True have "k \<noteq> dest d + i" by auto
      then have "out d1 ! k = out d ! k" by (simp add: d1_def)
      with u [of k] that show ?thesis by auto
    qed
    have here: "out d' ! (dest d + i) = out d' ! p"
    proof -
      have "out d' ! (dest d + i) = out d1 ! (dest d + i)" by (rule u) simp
      also have "\<dots> = b"
        using "1.prems" True by (simp add: d1_def)
      also have "\<dots> = out d1 ! p"
        using "1.prems" True p by (cases "p = dest d + i") (simp_all add: d1_def b_def)
      also have "\<dots> = out d' ! p"
        using p by (intro u [symmetric]) simp
      finally show ?thesis .
    qed
    have v': "out d' ! (dest d + j) = out d' ! (dest d + j - offs)" if "i \<le> j \<and> j < len" for j
    proof (cases "j = i")
      case True
      with here show ?thesis by (simp add: p_def)
    next
      case False
      with that v [of j] show ?thesis by simp
    qed
    from c u' v' show ?thesis by blast
  qed
qed

text \<open>
  The bytes a match appends are the last \<open>offs\<close> bytes before it, repeated
  cyclically.
\<close>

lemma copy_match_cyclic:
  assumes "1 \<le> offs" and "offs \<le> dst"
    and old: "\<And>k. k < dst \<Longrightarrow> ys ! k = xs ! k"
    and new: "\<And>j. j < len \<Longrightarrow> ys ! (dst + j) = ys ! (dst + j - offs)"
  shows "j < len \<Longrightarrow> ys ! (dst + j) = xs ! (dst - offs + j mod offs)"
proof (induction j rule: less_induct)
  case (less j)
  show ?case
  proof (cases "j < offs")
    case True
    with assms(2) have "dst + j - offs < dst" "dst + j - offs = dst - offs + j" by simp_all
    with new [OF less.prems] old [of "dst + j - offs"] True show ?thesis by simp
  next
    case False
    then have j: "j - offs < j" "j - offs < len" "dst + j - offs = dst + (j - offs)"
      using assms(1) less.prems by simp_all
    have "(j - offs) mod offs = j mod offs"
      using False by (simp add: le_mod_geq)
    with less.IH [OF j(1,2)] new [OF less.prems] j(3) show ?thesis by simp
  qed
qed

lemma copy_checked_reject:
  "destLen d < offs \<Longrightarrow> copy_checked d offs len = Some (Some TINF_DATA_ERROR, d)"
  by (simp add: copy_checked_def)

lemma copy_checked_copies:
  assumes "writer_ok d" and "offs \<le> destLen d" and "dest d + len \<le> length (out d)"
  shows "\<exists>d'. copy_checked d offs len = Some (None, d') \<and>
           dest d' = dest d + len \<and> destLen d' = (destLen d + len) mod 2 ^ 32 \<and>
           writer_ok d' \<and> length (out d') = length (out d) \<and>
           src d' = src d \<and> source d' = source d \<and> tag d' = tag d \<and>
           bitcount d' = bitcount d \<and> overflow d' = overflow d \<and>
           ltree d' = ltree d \<and> dtree d' = dtree d \<and>
           (\<forall>k. k < dest d \<or> dest d + len \<le> k \<longrightarrow> out d' ! k = out d ! k) \<and>
           (\<forall>j < len. out d' ! (dest d + j) = out d' ! (dest d + j - offs))"
proof -
  have le: "offs \<le> dest d"
    using assms(1,2) mod_less_eq_dividend [of "dest d" "2 ^ 32"] by (simp add: writer_ok_def)
  from copy_match_total [OF _ le assms(3), of 0] obtain d1 where
    c: "copy_match d offs len 0 = Some d1" and
    u: "\<forall>k. k < dest d \<or> dest d + len \<le> k \<longrightarrow> out d1 ! k = out d ! k" and
    v: "\<forall>j < len. out d1 ! (dest d + j) = out d1 ! (dest d + j - offs)"
    by auto
  note fr = copy_match_frame [OF c]
  have "copy_checked d offs len =
          Some (None, d1\<lparr>dest := dest d1 + len, destLen := (destLen d1 + len) mod 2 ^ 32\<rparr>)"
    using assms(2,3) c by (simp add: copy_checked_def destEnd_def)
  moreover have "(dest d mod 2 ^ 32 + len) mod 2 ^ 32 = (dest d + len) mod (2 ^ 32 :: nat)"
    by (simp add: mod_add_left_eq)
  ultimately show ?thesis
    using fr u v assms(1,3) by (simp add: writer_ok_def destEnd_def)
qed

section \<open>Building a tree\<close>

lemma tally_Suc: "tally t lengths (Suc n) = tally_step lengths n (tally t lengths n)"
  by (simp add: tally_def)

lemma tally_0: "tally t lengths 0 = t"
  by (simp add: tally_def)

lemma tally_trans_tab: "trans_tab (tally t lengths n) = trans_tab t"
  by (induction n) (simp_all add: tally_0 tally_Suc tally_step_def Let_def)

lemma tally_length: "length (table (tally t lengths n)) = length (table t)"
  by (induction n) (simp_all add: tally_0 tally_Suc tally_step_def Let_def)

lemma tally_table:
  assumes "\<forall>i < n. lengths ! i < length (table t)" and "n \<le> length lengths"
    and "l < length (table t)"
  shows "table (tally t lengths n) ! l = table t ! l + count_list (take n lengths) l"
  using assms(1,2)
proof (induction n)
  case 0
  then show ?case by (simp add: tally_0)
next
  case (Suc n)
  then have IH: "table (tally t lengths n) ! l = table t ! l + count_list (take n lengths) l"
    and n: "n < length lengths" and ln: "lengths ! n < length (table t)"
    by simp_all
  have tk: "take (Suc n) lengths = take n lengths @ [lengths ! n]"
    using n by (simp add: take_Suc_conv_app_nth)
  show ?case
    using IH ln assms(3)
    by (simp add: tally_Suc tally_step_def Let_def tk tally_length nth_list_update)
qed

lemma tally_max_sym:
  "(max_sym (tally t lengths n) = max_sym t \<and> (\<forall>i < n. lengths ! i = 0)) \<or>
   (\<exists>k < n. max_sym (tally t lengths n) = int k \<and> lengths ! k \<noteq> 0 \<and>
      (\<forall>i < n. k < i \<longrightarrow> lengths ! i = 0))"
proof (induction n)
  case 0
  then show ?case by (simp add: tally_0)
next
  case (Suc n)
  show ?case
  proof (cases "lengths ! n = 0")
    case False
    then have "max_sym (tally t lengths (Suc n)) = int n"
      by (simp add: tally_Suc tally_step_def Let_def)
    with False show ?thesis by auto
  next
    case True
    then have m: "max_sym (tally t lengths (Suc n)) = max_sym (tally t lengths n)"
      by (simp add: tally_Suc tally_step_def Let_def)
    from Suc show ?thesis
    proof
      assume "max_sym (tally t lengths n) = max_sym t \<and> (\<forall>i < n. lengths ! i = 0)"
      with True m show ?thesis by (auto simp: less_Suc_eq)
    next
      assume "\<exists>k < n. max_sym (tally t lengths n) = int k \<and> lengths ! k \<noteq> 0 \<and>
        (\<forall>i < n. k < i \<longrightarrow> lengths ! i = 0)"
      then obtain k where "k < n" "max_sym (tally t lengths n) = int k" "lengths ! k \<noteq> 0"
        "\<forall>i < n. k < i \<longrightarrow> lengths ! i = 0"
        by blast
      with True m have "k < Suc n \<and> max_sym (tally t lengths (Suc n)) = int k \<and>
        lengths ! k \<noteq> 0 \<and> (\<forall>i < Suc n. k < i \<longrightarrow> lengths ! i = 0)"
        by (auto simp: less_Suc_eq)
      then show ?thesis by blast
    qed
  qed
qed

lemma tally_max_sym_range:
  assumes "max_sym t = - 1"
  shows "- 1 \<le> max_sym (tally t lengths n) \<and> max_sym (tally t lengths n) < int n \<and>
         (max_sym (tally t lengths n) = - 1 \<longleftrightarrow> (\<forall>i < n. lengths ! i = 0))"
  using tally_max_sym [of t lengths n] assms by auto

text \<open>
  The table of code length counts as the specification describes it: \<open>count[l]\<close>
  is the number of symbols with code length \<open>l\<close>, and \<open>count[0]\<close> is zeroed.
\<close>

definition counts :: "nat list \<Rightarrow> nat list" where
  "counts ls = map (\<lambda>l. if l = 0 then 0 else count_list ls l) [0..<16]"

lemma tally_counts:
  assumes "n \<le> length lengths" and "\<forall>i < n. lengths ! i \<le> 15"
  shows "(table (tally (t\<lparr>table := replicate 16 0, max_sym := - 1\<rparr>) lengths n))[0 := 0] =
         counts (take n lengths)"
proof (rule nth_equalityI)
  show "length ((table (tally (t\<lparr>table := replicate 16 0, max_sym := - 1\<rparr>) lengths n))[0 := 0]) =
        length (counts (take n lengths))"
    by (simp add: tally_length counts_def)
next
  fix l
  assume "l < length ((table (tally (t\<lparr>table := replicate 16 0, max_sym := - 1\<rparr>) lengths n))[0 := 0])"
  then have l: "l < 16" by (simp add: tally_length)
  have "table (tally (t\<lparr>table := replicate 16 0, max_sym := - 1\<rparr>) lengths n) ! l =
        count_list (take n lengths) l"
    using assms l by (subst tally_table) (auto simp: less_Suc_eq_le)
  with l show "(table (tally (t\<lparr>table := replicate 16 0, max_sym := - 1\<rparr>) lengths n))[0 := 0] ! l =
        counts (take n lengths) ! l"
    by (simp add: counts_def nth_list_update tally_length del: upt_Suc)
qed

text \<open>
  The running capacity of the specification: it starts at 1 and becomes
  \<open>2 * (max - count[i])\<close> after length \<open>i\<close>. \<open>within_capacity\<close> says that no count
  exceeds the capacity at its step, \<open>final_capacity\<close> is the capacity after the last
  step.
\<close>

fun within_capacity :: "nat list \<Rightarrow> nat \<Rightarrow> bool" where
  "within_capacity [] mx = True"
| "within_capacity (c # cs) mx = (c \<le> mx \<and> within_capacity cs (2 * (mx - c)))"

fun final_capacity :: "nat list \<Rightarrow> nat \<Rightarrow> nat" where
  "final_capacity [] mx = mx"
| "final_capacity (c # cs) mx = final_capacity cs (2 * (mx - c))"

fun offsets :: "nat list \<Rightarrow> nat \<Rightarrow> nat list" where
  "offsets [] sm = []"
| "offsets (c # cs) sm = sm # offsets cs (sm + c)"

text \<open>
  Legality of a length vector in the words of the specification: empty, or one coded
  symbol and that of length 1, or more than one coded symbol and a complete code that
  never exceeds the capacity.
\<close>

definition legal :: "nat list \<Rightarrow> bool" where
  "legal ls \<longleftrightarrow>
     (let cs = counts ls; sm = sum_list cs
      in sm = 0 \<or> (sm = 1 \<and> cs ! 1 = 1) \<or>
         (1 < sm \<and> within_capacity cs 1 \<and> final_capacity cs 1 = 0))"

lemma scan_counts_eq:
  "scan_counts cs mx sm offs =
     (if within_capacity cs mx
      then Some (final_capacity cs mx, sm + sum_list cs, offs @ offsets cs sm) else None)"
  by (induction cs arbitrary: mx sm offs) (simp_all add: ac_simps)

lemma within_capacity_zeros: "\<forall>c \<in> set cs. c = 0 \<Longrightarrow> within_capacity cs mx"
  by (induction cs arbitrary: mx) simp_all

lemma final_capacity_zeros: "\<forall>c \<in> set cs. c = 0 \<Longrightarrow> final_capacity cs 0 = 0"
  by (induction cs) simp_all

lemma sum_list_single:
  fixes cs :: "nat list"
  assumes "sum_list cs = cs ! k" and "k < length cs" and "j < length cs" and "j \<noteq> k"
  shows "cs ! j = 0"
proof -
  have "sum_list (cs[k := 0]) = 0"
    using assms(1,2) by (simp add: sum_list_update)
  then have "\<forall>x \<in> set (cs[k := 0]). x = 0" by simp
  moreover have "cs[k := 0] ! j \<in> set (cs[k := 0])"
    using assms(3) by (intro nth_mem) simp
  ultimately show ?thesis using assms(4) by simp
qed

lemma replicate_16: "replicate 16 x = [x, x, x, x, x, x, x, x, x, x, x, x, x, x, x, x]"
  by (simp add: numeral_eq_Suc)

lemma single_counts:
  fixes cs :: "nat list"
  assumes "length cs = 16" and "sum_list cs = 1" and "cs ! 1 = 1"
  shows "cs = [0, 1, 0, 0, 0, 0, 0, 0, 0, 0, 0, 0, 0, 0, 0, 0]"
proof -
  have "cs = (replicate 16 0)[1 := 1]"
  proof (rule nth_equalityI)
    show "length cs = length ((replicate 16 (0 :: nat))[1 := 1])"
      using assms(1) by simp
  next
    fix j
    assume j: "j < length cs"
    show "cs ! j = (replicate 16 0)[1 := 1] ! j"
    proof (cases "j = 1")
      case True
      with assms show ?thesis by simp
    next
      case False
      with sum_list_single [of cs 1 j] assms j have "cs ! j = 0" by simp
      with False j assms(1) show ?thesis by simp
    qed
  qed
  then show ?thesis by (simp add: replicate_16)
qed

lemma counts_length [simp]: "length (counts ls) = 16"
  by (simp add: counts_def)

lemma counts_0 [simp]: "counts ls ! 0 = 0"
  by (simp add: counts_def nth_map [where n = 0] del: upt_Suc)

lemma sum_list_zero_within:
  fixes cs :: "nat list"
  shows "sum_list cs = 0 \<Longrightarrow> within_capacity cs mx"
  by (rule within_capacity_zeros) simp

text \<open>What \<open>tinf_build_tree\<close> returns, in terms of the counts.\<close>

lemma tinf_build_tree_result:
  fixes t :: tinf_tree
  assumes "num \<le> 288" and "num \<le> length lengths" and "\<forall>i < num. lengths ! i \<le> 15"
  defines "cs \<equiv> counts (take num lengths)"
  defines "t2 \<equiv> (tally (t\<lparr>table := replicate 16 0, max_sym := - 1\<rparr>) lengths num)\<lparr>table := cs\<rparr>"
  shows "tinf_build_tree t lengths num =
     Some (if \<not> within_capacity cs 1 then (TINF_DATA_ERROR, t2)
           else if (1 < sum_list cs \<and> 0 < final_capacity cs 1) \<or>
                   (sum_list cs = 1 \<and> cs ! 1 \<noteq> 1) then (TINF_DATA_ERROR, t2)
           else if sum_list cs = 1
           then (TINF_OK,
                 t2\<lparr>trans_tab := (place lengths num (trans_tab t) (offsets cs 0))
                                   [1 := nat (max_sym t2 + 1)],
                    table := cs[1 := 2]\<rparr>)
           else (TINF_OK, t2\<lparr>trans_tab := place lengths num (trans_tab t) (offsets cs 0)\<rparr>))"
proof -
  have a: "list_all (\<lambda>l. l \<le> 15) (take num lengths)"
    using assms(2,3) by (auto simp: list_all_length)
  have tb: "(table (tally (t\<lparr>table := replicate 16 0, max_sym := - 1\<rparr>) lengths num))[0 := 0] = cs"
    unfolding cs_def using assms(2,3) by (rule tally_counts)
  show ?thesis
    using assms(1,2) a
    by (simp add: tinf_build_tree_def Let_def tb scan_counts_eq t2_def tally_trans_tab)
qed

lemma tinf_build_tree_status:
  assumes "num \<le> 288" and "num \<le> length lengths" and "\<forall>i < num. lengths ! i \<le> 15"
  shows "\<exists>t'. tinf_build_tree t lengths num =
     Some (if legal (take num lengths) then TINF_OK else TINF_DATA_ERROR, t')"
proof -
  define cs where "cs = counts (take num lengths)"
  have len: "length cs = 16" by (simp add: cs_def)
  have w0: "within_capacity cs 1" if "sum_list cs = 0"
    using that by (rule sum_list_zero_within)
  have w1: "within_capacity cs 1" if "sum_list cs = 1" "cs ! 1 = 1"
    using single_counts [OF len that] by simp
  have l: "legal (take num lengths) \<longleftrightarrow>
      sum_list cs = 0 \<or> (sum_list cs = 1 \<and> cs ! 1 = 1) \<or>
      (1 < sum_list cs \<and> within_capacity cs 1 \<and> final_capacity cs 1 = 0)"
    by (simp add: legal_def Let_def cs_def)
  consider "sum_list cs = 0" | "sum_list cs = 1" "cs ! 1 = 1" | "sum_list cs = 1" "cs ! 1 \<noteq> 1"
    | "1 < sum_list cs"
    by linarith
  then show ?thesis
  proof cases
    case 1
    with w0 show ?thesis
      unfolding tinf_build_tree_result [OF assms] cs_def [symmetric] l
      by (simp del: sum_list_eq_0_iff)
  next
    case 2
    with w1 show ?thesis
      unfolding tinf_build_tree_result [OF assms] cs_def [symmetric] l
      by (simp del: sum_list_eq_0_iff)
  next
    case 3
    then show ?thesis
      unfolding tinf_build_tree_result [OF assms] cs_def [symmetric] l
      by (simp del: sum_list_eq_0_iff)
  next
    case 4
    then show ?thesis
      unfolding tinf_build_tree_result [OF assms] cs_def [symmetric] l
      by (auto simp del: sum_list_eq_0_iff)
  qed
qed

section \<open>The tree of a single symbol\<close>

text \<open>\<open>single lengths num k\<close>: among the first \<open>num\<close> code lengths, only the one of
  symbol \<open>k\<close> is not zero, and it is 1.\<close>

definition single :: "nat list \<Rightarrow> nat \<Rightarrow> nat \<Rightarrow> bool" where
  "single lengths num k \<longleftrightarrow>
     k < num \<and> num \<le> length lengths \<and> lengths ! k = 1 \<and>
     (\<forall>i < num. i \<noteq> k \<longrightarrow> lengths ! i = 0)"

lemma single_take:
  assumes "single lengths num k"
  shows "take num lengths = replicate k 0 @ [1] @ replicate (num - k - 1) 0"
proof (rule nth_equalityI)
  show "length (take num lengths) = length (replicate k 0 @ [1] @ replicate (num - k - 1) (0 :: nat))"
    using assms by (auto simp: single_def)
next
  fix i
  assume "i < length (take num lengths)"
  then have i: "i < num" by simp
  consider "i < k" | "i = k" | "k < i" by linarith
  then show "take num lengths ! i = (replicate k 0 @ [1] @ replicate (num - k - 1) 0) ! i"
  proof cases
    case 1
    with assms i show ?thesis by (simp add: single_def nth_append)
  next
    case 2
    with assms i show ?thesis by (simp add: single_def nth_append)
  next
    case 3
    then have "i - k = Suc (i - k - 1)" by simp
    with 3 assms i show ?thesis
      by (simp add: single_def nth_append nth_Cons')
  qed
qed

lemma single_counts_eq:
  assumes "single lengths num k"
  shows "counts (take num lengths) = [0, 1, 0, 0, 0, 0, 0, 0, 0, 0, 0, 0, 0, 0, 0, 0]"
proof -
  have c: "count_list (take num lengths) l = (if l = 1 then 1 else 0)" if "l \<noteq> 0" for l
    using that by (simp add: single_take [OF assms] count_list_0_iff)
  have "[0..<16] = [0, 1, 2, 3, 4, 5, 6, 7, 8, 9, 10, 11, 12, 13, 14, 15 :: nat]"
    by (simp add: upt_conv_Cons)
  then show ?thesis by (simp add: counts_def c)
qed

lemma place_Suc:
  "fold (place_step lengths) [0..<Suc n] p = place_step lengths n (fold (place_step lengths) [0..<n] p)"
  by simp

lemma place_single:
  assumes "single lengths num k" and "n \<le> num"
  shows "fold (place_step lengths) [0..<n] (tr, offs) =
     (if n \<le> k then (tr, offs) else (tr[offs ! 1 := k], offs[1 := offs ! 1 + 1]))"
  using assms(2)
proof (induction n)
  case 0
  then show ?case by simp
next
  case (Suc n)
  then have IH: "fold (place_step lengths) [0..<n] (tr, offs) =
     (if n \<le> k then (tr, offs) else (tr[offs ! 1 := k], offs[1 := offs ! 1 + 1]))"
    and n: "n < num" by simp_all
  consider "n < k" | "n = k" | "k < n" by linarith
  then show ?case
  proof cases
    case 1
    with assms(1) n have "lengths ! n = 0" by (simp add: single_def)
    with 1 show ?thesis unfolding place_Suc IH by (simp add: place_step_def)
  next
    case 2
    with assms(1) have "lengths ! n = 1" by (simp add: single_def)
    with 2 show ?thesis unfolding place_Suc IH by (simp add: place_step_def)
  next
    case 3
    with assms(1) n have "lengths ! n = 0" by (simp add: single_def)
    with 3 show ?thesis unfolding place_Suc IH by (simp add: place_step_def)
  qed
qed

lemma tally_single_max_sym:
  assumes "single lengths num k"
  shows "max_sym (tally (t\<lparr>table := replicate 16 0, max_sym := - 1\<rparr>) lengths num) = int k"
proof -
  from tally_max_sym [of "t\<lparr>table := replicate 16 0, max_sym := - 1\<rparr>" lengths num]
  show ?thesis
  proof
    assume "max_sym (tally (t\<lparr>table := replicate 16 0, max_sym := - 1\<rparr>) lengths num) =
        max_sym (t\<lparr>table := replicate 16 0, max_sym := - 1\<rparr>) \<and> (\<forall>i < num. lengths ! i = 0)"
    with assms show ?thesis by (auto simp: single_def)
  next
    assume "\<exists>j < num. max_sym (tally (t\<lparr>table := replicate 16 0, max_sym := - 1\<rparr>) lengths num) = int j \<and>
        lengths ! j \<noteq> 0 \<and> (\<forall>i < num. j < i \<longrightarrow> lengths ! i = 0)"
    with assms show ?thesis by (auto simp: single_def)
  qed
qed

lemma tinf_build_tree_single:
  assumes "single lengths num k" and "num \<le> 288"
  shows "tinf_build_tree t lengths num =
     Some (TINF_OK,
           t\<lparr>table := [0, 2, 0, 0, 0, 0, 0, 0, 0, 0, 0, 0, 0, 0, 0, 0],
             trans_tab := (trans_tab t)[0 := k, 1 := k + 1],
             max_sym := int k\<rparr>)"
proof -
  have b: "num \<le> length lengths" "\<forall>i < num. lengths ! i \<le> 15"
    using assms(1) by (auto simp: single_def)
  note cs = single_counts_eq [OF assms(1)]
  have p: "place lengths num (trans_tab t) (offsets [0, 1, 0, 0, 0, 0, 0, 0, 0, 0, 0, 0, 0, 0, 0, 0] 0) =
           (trans_tab t)[0 := k]"
    using assms(1) by (simp add: place_def place_single [OF assms(1) order_refl] single_def)
  have "tally (t\<lparr>table := replicate 16 0, max_sym := - 1\<rparr>) lengths num
          \<lparr>table := [0, 1, 0, 0, 0, 0, 0, 0, 0, 0, 0, 0, 0, 0, 0, 0],
           trans_tab := (trans_tab t)[0 := k, 1 := k + 1],
           table := [0, 2, 0, 0, 0, 0, 0, 0, 0, 0, 0, 0, 0, 0, 0, 0]\<rparr> =
        t\<lparr>table := [0, 2, 0, 0, 0, 0, 0, 0, 0, 0, 0, 0, 0, 0, 0, 0],
          trans_tab := (trans_tab t)[0 := k, 1 := k + 1],
          max_sym := int k\<rparr>"
    by (rule tinf_tree.equality) (simp_all add: tally_single_max_sym [OF assms(1)])
  then show ?thesis
    unfolding tinf_build_tree_result [OF assms(2) b] cs p
    by (simp add: tally_single_max_sym [OF assms(1)] nat_add_distrib)
qed

section \<open>Decoding with a complete tree\<close>

text \<open>
  \<open>tree_ok t\<close>: the table of \<open>t\<close> describes a complete code of at most 288
  symbols, and the translation table has its 288 entries.
\<close>

definition tree_ok :: "tinf_tree \<Rightarrow> bool" where
  "tree_ok t \<longleftrightarrow>
     length (table t) = 16 \<and> table t ! 0 = 0 \<and> within_capacity (table t) 1 \<and>
     final_capacity (table t) 1 = 0 \<and> sum_list (table t) \<le> 288 \<and>
     length (trans_tab t) = 288"

lemma decode_loop_total:
  "reader_ok d \<Longrightarrow> length (table t) = 16 \<Longrightarrow>
   within_capacity (drop (Suc len) (table t)) m \<Longrightarrow>
   final_capacity (drop (Suc len) (table t)) m = 0 \<Longrightarrow>
   0 \<le> cur \<Longrightarrow> 2 * cur + 1 < int m \<Longrightarrow> 0 \<le> sm \<Longrightarrow>
   sm + int (sum_list (drop (Suc len) (table t))) \<le> 288 \<Longrightarrow>
   \<exists>v d'. decode_loop d t sm cur len = Some (v, d') \<and> reader_ok d'"
proof (induction d t sm cur len arbitrary: m rule: decode_loop.induct)
  case (1 d t sm cur len)
  from tinf_getbits_total [OF "1.prems"(1), of 1] obtain b d1 where
    g: "tinf_getbits d 1 = Some (b, d1)" and r1: "reader_ok d1" and b: "b < 2"
    by auto
  have ne: "drop (Suc len) (table t) \<noteq> []"
    using "1.prems"(4,5,6) by (cases "drop (Suc len) (table t)") auto
  then have len: "Suc len < 16" using "1.prems"(2) by simp
  define c where "c = table t ! Suc len"
  have dr: "drop (Suc len) (table t) = c # drop (Suc (Suc len)) (table t)"
    using len "1.prems"(2) by (simp add: c_def Cons_nth_drop_Suc)
  from "1.prems"(3,4,8) have
    w: "c \<le> m" "within_capacity (drop (Suc (Suc len)) (table t)) (2 * (m - c))"
       "final_capacity (drop (Suc (Suc len)) (table t)) (2 * (m - c)) = 0"
       "sm + int c + int (sum_list (drop (Suc (Suc len)) (table t))) \<le> 288"
    by (simp_all add: dr)
  define cur' where "cur' = 2 * cur + int b - int c"
  show ?case
  proof (cases "0 \<le> cur'")
    case True
    have "2 * cur' + 1 < int (2 * (m - c))"
      using "1.prems"(6) b w(1) by (simp add: cur'_def)
    from "1.IH" [OF g refl refl refl _ refl refl _ r1 "1.prems"(2), of "2 * (m - c)"]
      len True w this "1.prems"(7)
    obtain v d' where
      "decode_loop d1 t (sm + int c) cur' (len + 1) = Some (v, d')" "reader_ok d'"
      by (auto simp: c_def cur'_def)
    moreover have "decode_loop d t sm cur len = decode_loop d1 t (sm + int c) cur' (len + 1)"
      using g len True
      by (simp add: decode_loop.simps [of d t sm cur len] Let_def c_def cur'_def)
    ultimately show ?thesis by simp
  next
    case False
    have "0 \<le> sm + int c + cur'" "sm + int c + cur' < 288"
      using False w(4) "1.prems"(5,7) by (simp_all add: cur'_def)
    then have "decode_loop d t sm cur len = Some (trans_tab t ! nat (sm + int c + cur'), d1)"
      using g len False
      by (simp add: decode_loop.simps [of d t sm cur len] Let_def c_def cur'_def)
    with r1 show ?thesis by simp
  qed
qed

lemma tinf_decode_symbol_total:
  assumes "reader_ok d" and "tree_ok t"
  shows "\<exists>v d'. tinf_decode_symbol d t = Some (v, d') \<and> reader_ok d'"
proof -
  from assms(2) obtain cs where t: "table t = 0 # cs"
    by (cases "table t") (auto simp: tree_ok_def)
  with assms(2) have
    "length (table t) = 16" "within_capacity (drop (Suc 0) (table t)) 2"
    "final_capacity (drop (Suc 0) (table t)) 2 = 0"
    "0 + int (sum_list (drop (Suc 0) (table t))) \<le> 288"
    by (simp_all add: tree_ok_def)
  from decode_loop_total [OF assms(1) this(1,2,3) _ _ _ this(4), of 0]
  show ?thesis by (simp add: tinf_decode_symbol_def)
qed

lemma tally_sum:
  "\<forall>i < n. lengths ! i < length (table t) \<Longrightarrow>
   sum_list (table (tally t lengths n)) = sum_list (table t) + n"
proof (induction n)
  case 0
  then show ?case by (simp add: tally_0)
next
  case (Suc n)
  then have "sum_list (table (tally t lengths n)) = sum_list (table t) + n"
    and "lengths ! n < length (table (tally t lengths n))"
    by (simp_all add: tally_length)
  then show ?case
    by (simp add: tally_Suc tally_step_def Let_def sum_list_update)
qed

lemma counts_sum_le:
  assumes "num \<le> length lengths" and "\<forall>i < num. lengths ! i \<le> 15"
  shows "sum_list (counts (take num lengths)) \<le> num"
proof -
  define tb where "tb = table (tally (uninit_tree\<lparr>table := replicate 16 0, max_sym := - 1\<rparr>) lengths num)"
  have "sum_list tb = num"
    unfolding tb_def using assms(2) by (subst tally_sum) (auto simp: less_Suc_eq_le)
  moreover have "length tb = 16" by (simp add: tb_def tally_length)
  moreover have "counts (take num lengths) = tb[0 := 0]"
    unfolding tb_def using assms by (rule tally_counts [symmetric])
  ultimately show ?thesis by (simp add: sum_list_update)
qed

lemma counts_nth: "l < 16 \<Longrightarrow> counts ls ! l = (if l = 0 then 0 else count_list ls l)"
  by (simp add: counts_def del: upt_Suc)

lemma counts_sum_0:
  assumes "sum_list (counts ls) = 0" and "x \<in> set ls" and "x \<le> 15"
  shows "x = 0"
proof (rule ccontr)
  assume x: "x \<noteq> 0"
  have "counts ls ! x \<in> set (counts ls)"
    using assms(3) by (intro nth_mem) simp
  with assms(1) have "counts ls ! x = 0" by simp
  with x assms(3) have "count_list ls x = 0" by (simp add: counts_nth)
  with assms(2) show False by (simp add: count_list_0_iff)
qed

lemma place_length: "length (place lengths num tr offs) = length tr"
proof -
  have "length (fst (fold (place_step lengths) [0..<n] (tr, offs))) = length tr" for n
    by (induction n) (auto simp: place_step_def Let_def split: prod.splits)
  then show ?thesis by (simp add: place_def)
qed

lemma tinf_build_tree_total:
  assumes "num \<le> 288" and "num \<le> length lengths" and "\<forall>i < num. lengths ! i \<le> 15"
  shows "\<exists>st t'. tinf_build_tree t lengths num = Some (st, t') \<and>
           length (trans_tab t') = length (trans_tab t) \<and>
           - 1 \<le> max_sym t' \<and> max_sym t' < int num \<and>
           (st = TINF_OK \<and> max_sym t' \<noteq> - 1 \<and> length (trans_tab t) = 288 \<longrightarrow> tree_ok t')"
proof -
  define cs where "cs = counts (take num lengths)"
  define t1 where "t1 = tally (t\<lparr>table := replicate 16 0, max_sym := - 1\<rparr>) lengths num"
  note r = tinf_build_tree_result [OF assms, of t, folded cs_def t1_def]
  have m: "- 1 \<le> max_sym t1" "max_sym t1 < int num"
    "max_sym t1 = - 1 \<longleftrightarrow> (\<forall>i < num. lengths ! i = 0)"
    unfolding t1_def using tally_max_sym_range [of "t\<lparr>table := replicate 16 0, max_sym := - 1\<rparr>" lengths num]
    by simp_all
  have tt: "trans_tab t1 = trans_tab t" by (simp add: t1_def tally_trans_tab)
  have len: "length cs = 16" "cs ! 0 = 0" by (simp_all add: cs_def)
  have sm: "sum_list cs \<le> 288"
    using counts_sum_le [OF assms(2,3)] assms(1) by (simp add: cs_def)
  have z: "max_sym t1 = - 1" if "sum_list cs = 0"
  proof -
    have "lengths ! i = 0" if "i < num" for i
    proof (rule counts_sum_0)
      show "sum_list (counts (take num lengths)) = 0"
        using \<open>sum_list cs = 0\<close> by (simp add: cs_def)
      show "lengths ! i \<in> set (take num lengths)"
        using that assms(2) by (metis length_take min.absorb2 nth_mem nth_take)
      show "lengths ! i \<le> 15" using that assms(3) by simp
    qed
    with m(3) show ?thesis by simp
  qed
  consider "\<not> within_capacity cs 1 \<or> (1 < sum_list cs \<and> 0 < final_capacity cs 1) \<or>
        (sum_list cs = 1 \<and> cs ! 1 \<noteq> 1)"
    | "within_capacity cs 1" "sum_list cs = 1" "cs ! 1 = 1"
    | "within_capacity cs 1" "sum_list cs = 0"
    | "within_capacity cs 1" "1 < sum_list cs" "final_capacity cs 1 = 0"
    by (cases "sum_list cs = 0"; cases "sum_list cs = 1") auto
  then show ?thesis
  proof cases
    case 1
    then have "tinf_build_tree t lengths num = Some (TINF_DATA_ERROR, t1\<lparr>table := cs\<rparr>)"
      unfolding r by auto
    with m tt show ?thesis by simp
  next
    case 2
    from single_counts [OF len(1) 2(2,3)] have c: "cs = [0, 1, 0, 0, 0, 0, 0, 0, 0, 0, 0, 0, 0, 0, 0, 0]" .
    have "tinf_build_tree t lengths num =
        Some (TINF_OK, t1\<lparr>table := cs, trans_tab := (place lengths num (trans_tab t) (offsets cs 0))
                                   [1 := nat (max_sym t1 + 1)], table := cs[1 := 2]\<rparr>)"
      unfolding r using 2 by simp
    with m tt show ?thesis
      by (simp add: place_length tree_ok_def c)
  next
    case 3
    then have "tinf_build_tree t lengths num =
        Some (TINF_OK, t1\<lparr>table := cs, trans_tab := place lengths num (trans_tab t) (offsets cs 0)\<rparr>)"
      unfolding r by (simp del: sum_list_eq_0_iff)
    with m tt z [OF 3(2)] show ?thesis
      by (simp add: place_length)
  next
    case 4
    then have "tinf_build_tree t lengths num =
        Some (TINF_OK, t1\<lparr>table := cs, trans_tab := place lengths num (trans_tab t) (offsets cs 0)\<rparr>)"
      unfolding r by simp
    with m tt 4 len sm show ?thesis
      by (simp add: place_length tree_ok_def)
  qed
qed

lemma fixed_trees_ok:
  assumes "length (trans_tab lt) = 288" and "length (trans_tab dt) = 288"
  shows "tree_ok (fixed_ltree lt)" and "tree_ok (fixed_dtree dt)"
    and "max_sym (fixed_ltree lt) = 285" and "max_sym (fixed_dtree dt) = 29"
  using assms
  by (simp_all add: tree_ok_def fixed_ltree_def fixed_dtree_def store_list_def replicate_16)

section \<open>The decoder never leaves defined behaviour\<close>

lemma tinf_getbits_base_total:
  assumes "reader_ok d" and "num \<le> 25"
  shows "\<exists>v d'. tinf_getbits_base d num base = Some (v, d') \<and> reader_ok d' \<and>
           base \<le> v \<and> v < base + 2 ^ num"
proof (cases "num = 0")
  case True
  with assms show ?thesis by (simp add: tinf_getbits_base_def)
next
  case False
  from tinf_getbits_total [OF assms] obtain v d' where
    "tinf_getbits d num = Some (v, d')" "reader_ok d'" "v < 2 ^ num"
    by blast
  with False show ?thesis by (simp add: tinf_getbits_base_def)
qed

lemma read_clens_total:
  "reader_ok d \<Longrightarrow> \<forall>x \<in> set lengths. x \<le> 15 \<Longrightarrow>
   \<exists>ls d'. read_clens d lengths ks = Some (ls, d') \<and> reader_ok d' \<and>
     length ls = length lengths \<and> (\<forall>x \<in> set ls. x \<le> 15)"
proof (induction ks arbitrary: d lengths)
  case Nil
  then show ?case by simp
next
  case (Cons k ks)
  from tinf_getbits_total [OF Cons.prems(1), of 3] obtain clen d1 where
    g: "tinf_getbits d 3 = Some (clen, d1)" and r: "reader_ok d1" and c: "clen < 8"
    by auto
  have "\<forall>x \<in> set (lengths[k := clen]). x \<le> 15"
    using Cons.prems(2) c set_update_subset_insert [of lengths k clen] by auto
  from Cons.IH [OF r this] g show ?case by auto
qed

lemma rle_symbol_total:
  assumes "reader_ok d" and "symb \<le> 18" and "\<forall>x \<in> set lengths. x \<le> 15"
    and "num \<le> length lengths"
  shows "\<exists>r d'. rle_symbol d lengths num symb = Some (r, d') \<and> reader_ok d' \<and>
           (\<forall>v l. r = Some (v, l) \<longrightarrow> v \<le> 15)"
proof -
  consider "symb = 16" "num = 0" | "symb = 16" "num \<noteq> 0" | "symb = 17" | "symb = 18"
    | "symb < 16"
    using assms(2) by linarith
  then show ?thesis
  proof cases
    case 1
    with assms(1) show ?thesis by (simp add: rle_symbol_def)
  next
    case 2
    then have "lengths ! (num - 1) \<in> set lengths"
      using assms(4) by (intro nth_mem) simp
    with assms(3) have "lengths ! (num - 1) \<le> 15" by blast
    moreover from tinf_getbits_base_total [OF assms(1), of 2 3] obtain l d1 where
      "tinf_getbits_base d 2 3 = Some (l, d1)" "reader_ok d1"
      by auto
    ultimately show ?thesis using 2 by (simp add: rle_symbol_def)
  next
    case 3
    from tinf_getbits_base_total [OF assms(1), of 3 3] obtain l d1 where
      "tinf_getbits_base d 3 3 = Some (l, d1)" "reader_ok d1"
      by auto
    with 3 show ?thesis by (simp add: rle_symbol_def)
  next
    case 4
    from tinf_getbits_base_total [OF assms(1), of 7 11] obtain l d1 where
      "tinf_getbits_base d 7 11 = Some (l, d1)" "reader_ok d1"
      by auto
    with 4 show ?thesis by (simp add: rle_symbol_def)
  next
    case 5
    with assms(1) show ?thesis by (simp add: rle_symbol_def)
  qed
qed

lemma fill_lengths_length [simp]: "length (fill_lengths lengths num v l) = length lengths"
proof -
  have "length (fold (\<lambda>i xs. xs[i := v]) is lengths) = length lengths" for "is"
    by (induction "is" arbitrary: lengths) simp_all
  then show ?thesis by (simp add: fill_lengths_def)
qed

lemma fill_lengths_set: "set (fill_lengths lengths num v l) \<subseteq> insert v (set lengths)"
proof -
  have "set (fold (\<lambda>i xs. xs[i := v]) is lengths) \<subseteq> insert v (set lengths)" for "is"
  proof (induction "is" arbitrary: lengths)
    case Nil
    then show ?case by auto
  next
    case (Cons i "is")
    from Cons [of "lengths[i := v]"] set_update_subset_insert [of lengths i v]
    show ?case by auto
  qed
  then show ?thesis by (simp add: fill_lengths_def)
qed

lemma decode_lengths_total:
  "reader_ok d \<Longrightarrow> tree_ok lt \<Longrightarrow> max_sym lt \<le> 18 \<Longrightarrow> \<forall>x \<in> set lengths. x \<le> 15 \<Longrightarrow>
   tot \<le> length lengths \<Longrightarrow> num \<le> tot \<Longrightarrow>
   \<exists>st ls d'. decode_lengths d lt lengths num tot = Some (st, ls, d') \<and> reader_ok d' \<and>
     length ls = length lengths \<and> (\<forall>x \<in> set ls. x \<le> 15)"
proof (induction d lt lengths num tot rule: decode_lengths.induct)
  case (1 d lt lengths num tot)
  show ?case
  proof (cases "num < tot")
    case False
    then have "decode_lengths d lt lengths num tot = Some (TINF_OK, lengths, d)"
      by (simp add: decode_lengths.simps [of d lt lengths num tot])
    with "1.prems" show ?thesis by simp
  next
    case True
    from tinf_decode_symbol_total [OF "1.prems"(1,2)] obtain symb d1 where
      g: "tinf_decode_symbol d lt = Some (symb, d1)" and r1: "reader_ok d1"
      by blast
    show ?thesis
    proof (cases "int symb > max_sym lt")
      case True
      with \<open>num < tot\<close> g r1 "1.prems" show ?thesis
        by (simp add: decode_lengths.simps [of d lt lengths num tot])
    next
      case ok: False
      with "1.prems"(3) have s18: "symb \<le> 18" by simp
      have nl: "num \<le> length lengths" using "1.prems"(5,6) by simp
      from rle_symbol_total [OF r1 s18 "1.prems"(4) nl] obtain r2 d2 where
        h: "rle_symbol d1 lengths num symb = Some (r2, d2)" and r2: "reader_ok d2" and
        v15: "\<forall>v l. r2 = Some (v, l) \<longrightarrow> v \<le> 15"
        by blast
      show ?thesis
      proof (cases r2)
        case None
        with \<open>num < tot\<close> g ok h r2 "1.prems" show ?thesis
          by (simp add: decode_lengths.simps [of d lt lengths num tot])
      next
        case (Some vl)
        obtain v l where vl: "vl = (v, l)" by (cases vl)
        show ?thesis
        proof (cases "l > tot - num")
          case True
          with \<open>num < tot\<close> g ok h r2 Some vl "1.prems" show ?thesis
            by (simp add: decode_lengths.simps [of d lt lengths num tot])
        next
          case False
          have "\<forall>x \<in> set (fill_lengths lengths num v l). x \<le> 15"
            using fill_lengths_set [of lengths num v l] v15 Some vl "1.prems"(4) by auto
          moreover have "num + l \<le> tot" "tot \<le> length (fill_lengths lengths num v l)"
            using False \<open>num < tot\<close> "1.prems"(5) by simp_all
          ultimately obtain st ls d' where
            "decode_lengths d2 lt (fill_lengths lengths num v l) (num + l) tot = Some (st, ls, d')"
            "reader_ok d'" "length ls = length lengths" "\<forall>x \<in> set ls. x \<le> 15"
            using "1.IH" [OF \<open>num < tot\<close> g refl ok h refl Some vl [symmetric] False r2
                "1.prems"(2,3)]
            by auto
          moreover have "decode_lengths d lt lengths num tot =
              decode_lengths d2 lt (fill_lengths lengths num v l) (num + l) tot"
            using \<open>num < tot\<close> g ok h Some vl False
            by (simp add: decode_lengths.simps [of d lt lengths num tot])
          ultimately show ?thesis by simp
        qed
      qed
    qed
  qed
qed

lemma tinf_build_tree_max_sym:
  assumes "num \<le> 288" and "num \<le> length lengths" and "\<forall>i < num. lengths ! i \<le> 15"
    and "tinf_build_tree t lengths num = Some (st, t')"
  shows "max_sym t' = - 1 \<longleftrightarrow> (\<forall>i < num. lengths ! i = 0)"
proof -
  define t1 where "t1 = tally (t\<lparr>table := replicate 16 0, max_sym := - 1\<rparr>) lengths num"
  have "max_sym t1 = - 1 \<longleftrightarrow> (\<forall>i < num. lengths ! i = 0)"
    unfolding t1_def
    using tally_max_sym_range [of "t\<lparr>table := replicate 16 0, max_sym := - 1\<rparr>" lengths num]
    by simp
  moreover have "max_sym t' = max_sym t1"
    using assms(4) unfolding tinf_build_tree_result [OF assms(1-3)] t1_def
    by (auto split: if_splits)
  ultimately show ?thesis by simp
qed

lemma reader_ok_cong:
  "src d' = src d \<Longrightarrow> source d' = source d \<Longrightarrow> tag d' = tag d \<Longrightarrow>
   bitcount d' = bitcount d \<Longrightarrow> overflow d' = overflow d \<Longrightarrow> reader_ok d' = reader_ok d"
  by (simp add: reader_ok_def sourceEnd_def)

lemma writer_ok_cong:
  "length (out d') = length (out d) \<Longrightarrow> dest d' = dest d \<Longrightarrow> destLen d' = destLen d \<Longrightarrow>
   writer_ok d' = writer_ok d"
  by (simp add: writer_ok_def destEnd_def)

lemma reader_ok_update [simp]:
  "reader_ok (d\<lparr>ltree := lt\<rparr>) = reader_ok d"
  "reader_ok (d\<lparr>dtree := dt\<rparr>) = reader_ok d"
  "reader_ok (d\<lparr>out := xs\<rparr>) = reader_ok d"
  "reader_ok (d\<lparr>dest := n\<rparr>) = reader_ok d"
  "reader_ok (d\<lparr>destLen := n\<rparr>) = reader_ok d"
  by (simp_all add: reader_ok_def sourceEnd_def)

lemma writer_ok_update [simp]:
  "writer_ok (d\<lparr>ltree := lt\<rparr>) = writer_ok d"
  "writer_ok (d\<lparr>dtree := dt\<rparr>) = writer_ok d"
  "writer_ok (d\<lparr>tag := w\<rparr>) = writer_ok d"
  "writer_ok (d\<lparr>bitcount := n\<rparr>) = writer_ok d"
  "writer_ok (d\<lparr>source := n\<rparr>) = writer_ok d"
  "writer_ok (d\<lparr>overflow := b\<rparr>) = writer_ok d"
  by (simp_all add: writer_ok_def destEnd_def)

lemma tinf_decode_trees_total:
  assumes "reader_ok d" and "length (trans_tab (ltree d)) = 288"
    and "length (trans_tab (dtree d)) = 288"
  shows "\<exists>st d'. tinf_decode_trees d = Some (st, d') \<and> reader_ok d' \<and>
           out d' = out d \<and> dest d' = dest d \<and> destLen d' = destLen d \<and>
           length (trans_tab (ltree d')) = 288 \<and> length (trans_tab (dtree d')) = 288 \<and>
           (st = TINF_OK \<longrightarrow>
              tree_ok (ltree d') \<and> (max_sym (dtree d') \<noteq> - 1 \<longrightarrow> tree_ok (dtree d')))"
proof -
  from tinf_getbits_base_total [OF assms(1), of 5 257] obtain hlit d1 where
    g1: "tinf_getbits_base d 5 257 = Some (hlit, d1)" and r1: "reader_ok d1" and
    hl: "257 \<le> hlit"
    by auto
  from tinf_getbits_base_total [OF r1, of 5 1] obtain hdist d2 where
    g2: "tinf_getbits_base d1 5 1 = Some (hdist, d2)" and r2: "reader_ok d2"
    by auto
  from tinf_getbits_base_total [OF r2, of 4 4] obtain hclen d3 where
    g3: "tinf_getbits_base d2 4 4 = Some (hclen, d3)" and r3: "reader_ok d3"
    by auto
  have f3: "reads_on d d3"
    using g1 g2 g3 by (blast intro: reads_on_trans tinf_getbits_base_reads_on)
  show ?thesis
  proof (cases "hlit > 286 \<or> hdist > 30")
    case True
    then have "tinf_decode_trees d = Some (TINF_DATA_ERROR, d3)"
      using g1 g2 g3 by (auto simp: tinf_decode_trees_def)
    with r3 f3 assms show ?thesis by (simp add: reads_on_def)
  next
    case small: False
    have "\<forall>x \<in> set (replicate 320 (0 :: nat)). x \<le> 15" by simp
    from read_clens_total [OF r3 this, of "take hclen clcidx"] obtain lengths1 d4 where
      c: "read_clens d3 (replicate 320 0) (take hclen clcidx) = Some (lengths1, d4)" and
      r4: "reader_ok d4" and l1: "length lengths1 = 320" "\<forall>x \<in> set lengths1. x \<le> 15"
      by auto
    have f4: "reads_on d d4"
      using f3 c by (blast intro: reads_on_trans read_clens_reads_on)
    have p1: "(19 :: nat) \<le> 288" "19 \<le> length lengths1" "\<forall>i < 19. lengths1 ! i \<le> 15"
      using l1 by simp_all
    from tinf_build_tree_total [OF p1, of "ltree d4"] obtain res lt where
      b1: "tinf_build_tree (ltree d4) lengths1 19 = Some (res, lt)" and
      t1: "length (trans_tab lt) = length (trans_tab (ltree d4))" "max_sym lt < 19" and
      k1: "res = TINF_OK \<and> max_sym lt \<noteq> - 1 \<and> length (trans_tab (ltree d4)) = 288 \<longrightarrow> tree_ok lt"
      by auto
    define d5 where "d5 = d4\<lparr>ltree := lt\<rparr>"
    have r5: "reader_ok d5"
      using r4 by (simp add: d5_def)
    have f5: "out d5 = out d" "dest d5 = dest d" "destLen d5 = destLen d" "dtree d5 = dtree d"
      "length (trans_tab (ltree d5)) = 288"
      using f4 t1 assms(2) by (simp_all add: d5_def reads_on_def)
    show ?thesis
    proof (cases "res \<noteq> TINF_OK \<or> max_sym lt = - 1")
      case True
      then have "\<exists>st. st \<noteq> TINF_OK \<and> tinf_decode_trees d = Some (st, d5)"
        using g1 g2 g3 small c b1
        by (cases "res = TINF_OK") (auto simp: tinf_decode_trees_def d5_def Let_def)
      with r5 f5 assms(3) show ?thesis by auto
    next
      case ok1: False
      with k1 f4 assms(2) have tk: "tree_ok lt" by (simp add: reads_on_def)
      have tot: "hlit + hdist \<le> length lengths1" "0 \<le> hlit + hdist"
        using small l1 by simp_all
      from decode_lengths_total [OF r5 tk _ l1(2) tot] t1(2) obtain res2 lengths2 d6 where
        e: "decode_lengths d5 lt lengths1 0 (hlit + hdist) = Some (res2, lengths2, d6)" and
        r6: "reader_ok d6" and l2: "length lengths2 = 320" "\<forall>x \<in> set lengths2. x \<le> 15"
        using l1(1) by auto
      have f6: "out d6 = out d" "dest d6 = dest d" "destLen d6 = destLen d" "dtree d6 = dtree d"
        "ltree d6 = lt"
        using decode_lengths_reads_on [OF e] f5 by (simp_all add: reads_on_def) (simp add: d5_def)
      show ?thesis
      proof (cases "res2 \<noteq> TINF_OK \<or> lengths2 ! 256 = 0")
        case True
        then have "\<exists>st. st \<noteq> TINF_OK \<and> tinf_decode_trees d = Some (st, d6)"
          using g1 g2 g3 small c b1 ok1 e
          by (cases "res2 = TINF_OK") (auto simp: tinf_decode_trees_def d5_def Let_def)
        with r6 f6 f5 assms(3) show ?thesis by (auto simp: d5_def)
      next
        case ok2: False
        have p2: "hlit \<le> 288" "hlit \<le> length lengths2" "\<forall>i < hlit. lengths2 ! i \<le> 15"
          using small l2 by (auto simp: all_set_conv_all_nth)
        from tinf_build_tree_total [OF p2, of "ltree d6"] obtain res3 lt' where
          b2: "tinf_build_tree (ltree d6) lengths2 hlit = Some (res3, lt')" and
          t2: "length (trans_tab lt') = length (trans_tab (ltree d6))" and
          k2: "res3 = TINF_OK \<and> max_sym lt' \<noteq> - 1 \<and> length (trans_tab (ltree d6)) = 288 \<longrightarrow>
               tree_ok lt'"
          by auto
        have "max_sym lt' \<noteq> - 1"
          using tinf_build_tree_max_sym [OF p2 b2] ok2 hl by auto
        with k2 f6 f5 t1 have tk2: "res3 = TINF_OK \<longrightarrow> tree_ok lt'"
          by (simp add: d5_def)
        define d7 where "d7 = d6\<lparr>ltree := lt'\<rparr>"
        have r7: "reader_ok d7"
          using r6 by (simp add: d7_def)
        have s7: "length (trans_tab (ltree d7)) = 288"
          using t2 f6 f5 by (simp add: d7_def d5_def)
        show ?thesis
        proof (cases "res3 \<noteq> TINF_OK")
          case True
          then have "\<exists>st. st \<noteq> TINF_OK \<and> tinf_decode_trees d = Some (st, d7)"
            using g1 g2 g3 small c b1 ok1 e ok2 b2
            by (auto simp: tinf_decode_trees_def d5_def d7_def Let_def)
          with r7 s7 f6 assms(3) show ?thesis by (auto simp: d7_def)
        next
          case ok3: False
          have p3: "hdist \<le> 288" "hdist \<le> length (drop hlit lengths2)"
            "\<forall>i < hdist. drop hlit lengths2 ! i \<le> 15"
            using small l2 by (auto simp: all_set_conv_all_nth)
          from tinf_build_tree_total [OF p3, of "dtree d7"] obtain res4 dt' where
            b3: "tinf_build_tree (dtree d7) (drop hlit lengths2) hdist = Some (res4, dt')" and
            t3: "length (trans_tab dt') = length (trans_tab (dtree d7))" and
            k3: "res4 = TINF_OK \<and> max_sym dt' \<noteq> - 1 \<and> length (trans_tab (dtree d7)) = 288 \<longrightarrow>
                 tree_ok dt'"
            by auto
          have "tinf_decode_trees d = Some (res4, d7\<lparr>dtree := dt'\<rparr>)"
            using g1 g2 g3 small c b1 ok1 e ok2 b2 ok3 b3
            by (auto simp: tinf_decode_trees_def d5_def d7_def Let_def)
          moreover have "reader_ok (d7\<lparr>dtree := dt'\<rparr>)"
            using r7 by simp
          moreover have "length (trans_tab (dtree d7)) = 288"
            using f6 assms(3) by (simp add: d7_def)
          ultimately show ?thesis
            using s7 t3 k3 tk2 ok3 f6 by (auto simp: d7_def)
        qed
      qed
    qed
  qed
qed

text \<open>
  \<open>state_ok d\<close>: what holds between any two steps of the decoder.
\<close>

definition state_ok :: "tinf_data \<Rightarrow> bool" where
  "state_ok d \<longleftrightarrow>
     reader_ok d \<and> writer_ok d \<and>
     length (trans_tab (ltree d)) = 288 \<and> length (trans_tab (dtree d)) = 288"

lemma inflate_literal_total:
  assumes "state_ok d"
  shows "\<exists>r d'. inflate_literal d symb = Some (r, d') \<and> state_ok d' \<and>
           ltree d' = ltree d \<and> dtree d' = dtree d"
proof (cases "dest d = destEnd d")
  case True
  with assms show ?thesis by (simp add: inflate_literal_def)
next
  case False
  with assms have lt: "dest d < length (out d)"
    by (simp add: state_ok_def writer_ok_def destEnd_def)
  have "(dest d mod 2 ^ 32 + 1) mod 2 ^ 32 = (dest d + 1) mod (2 ^ 32 :: nat)"
    by (rule mod_add_left_eq)
  with assms False lt show ?thesis
    by (simp add: inflate_literal_def dest_write_def state_ok_def writer_ok_def destEnd_def)
qed

lemma copy_checked_total:
  assumes "state_ok d"
  shows "\<exists>r d'. copy_checked d offs len = Some (r, d') \<and> state_ok d' \<and>
           ltree d' = ltree d \<and> dtree d' = dtree d"
proof -
  consider "offs > destLen d" | "offs \<le> destLen d" "int (destEnd d) - int (dest d) < int len"
    | "offs \<le> destLen d" "dest d + len \<le> length (out d)"
    by (fastforce simp: destEnd_def)
  then show ?thesis
  proof cases
    case 1
    with assms show ?thesis by (simp add: copy_checked_def)
  next
    case 2
    with assms show ?thesis by (simp add: copy_checked_def)
  next
    case 3
    from assms have w: "writer_ok d" by (simp add: state_ok_def)
    from copy_checked_copies [OF w 3] obtain d' where
      "copy_checked d offs len = Some (None, d')" "writer_ok d'"
      "src d' = src d" "source d' = source d" "tag d' = tag d"
      "bitcount d' = bitcount d" "overflow d' = overflow d"
      "ltree d' = ltree d" "dtree d' = dtree d"
      by blast
    with assms show ?thesis
      by (auto simp: state_ok_def reader_ok_cong [of d' d])
  qed
qed

lemma reads_on_state_ok:
  "reads_on d d' \<Longrightarrow> reader_ok d' \<Longrightarrow> state_ok d \<Longrightarrow> state_ok d'"
  by (simp add: state_ok_def reads_on_def writer_ok_cong [of d' d])

lemma decode_match_total:
  assumes "reader_ok d" and "max_sym dt \<noteq> - 1 \<longrightarrow> tree_ok dt"
  shows "\<exists>r d'. decode_match d lt dt symb = Some (r, d') \<and> reader_ok d'"
proof (cases "int symb > max_sym lt \<or> symb - 257 > 28 \<or> max_sym dt = - 1")
  case True
  with assms(1) show ?thesis by (auto simp: decode_match_def)
next
  case False
  then have "length_bits ! (symb - 257) \<le> 25"
    using length_bits_le [of "symb - 257"] by simp
  from tinf_getbits_base_total [OF assms(1) this] obtain len d1 where
    a: "tinf_getbits_base d (length_bits ! (symb - 257)) (length_base ! (symb - 257)) = Some (len, d1)"
    and r1: "reader_ok d1"
    by blast
  from False assms(2) have "tree_ok dt" by simp
  from tinf_decode_symbol_total [OF r1 this] obtain dist d2 where
    b: "tinf_decode_symbol d1 dt = Some (dist, d2)" and r2: "reader_ok d2"
    by blast
  show ?thesis
  proof (cases "int dist > max_sym dt \<or> dist > 29")
    case True
    with False a b r2 show ?thesis by (auto simp: decode_match_def)
  next
    case ok: False
    then have "dist_bits ! dist \<le> 25"
      using dist_bits_le [of dist] by simp
    from tinf_getbits_base_total [OF r2 this] obtain offs d3 where
      "tinf_getbits_base d2 (dist_bits ! dist) (dist_base ! dist) = Some (offs, d3)"
      "reader_ok d3"
      by blast
    with False a b ok show ?thesis by (auto simp: decode_match_def)
  qed
qed

lemma inflate_match_total:
  assumes "state_ok d" and "max_sym dt \<noteq> - 1 \<longrightarrow> tree_ok dt"
  shows "\<exists>r d'. inflate_match d lt dt symb = Some (r, d') \<and> state_ok d' \<and>
           ltree d' = ltree d \<and> dtree d' = dtree d"
proof -
  from assms(1) have "reader_ok d" by (simp add: state_ok_def)
  from decode_match_total [OF this assms(2)] obtain r3 d3 where
    a: "decode_match d lt dt symb = Some (r3, d3)" and r: "reader_ok d3"
    by blast
  note f = decode_match_reads_on [OF a]
  then have s3: "state_ok d3" using r assms(1) by (rule reads_on_state_ok)
  have t3: "ltree d3 = ltree d" "dtree d3 = dtree d"
    using f by (simp_all add: reads_on_def)
  show ?thesis
  proof (cases r3)
    case None
    with a s3 t3 show ?thesis by (simp add: inflate_match_def)
  next
    case (Some lo)
    obtain len offs where lo: "lo = (len, offs)" by (cases lo)
    from copy_checked_total [OF s3, of offs len] obtain r' d' where
      "copy_checked d3 offs len = Some (r', d')" "state_ok d'"
      "ltree d' = ltree d3" "dtree d' = dtree d3"
      by blast
    with a Some lo t3 show ?thesis by (simp add: inflate_match_def)
  qed
qed

lemma tinf_inflate_block_data_total:
  "state_ok d \<Longrightarrow> tree_ok lt \<Longrightarrow> max_sym dt \<noteq> - 1 \<longrightarrow> tree_ok dt \<Longrightarrow>
   \<exists>st d'. tinf_inflate_block_data d lt dt = Some (st, d') \<and> state_ok d'"
proof (induction d lt dt rule: tinf_inflate_block_data.induct)
  case (1 d lt dt)
  from "1.prems"(1) have "reader_ok d" by (simp add: state_ok_def)
  from tinf_decode_symbol_total [OF this "1.prems"(2)] obtain symb d1 where
    g: "tinf_decode_symbol d lt = Some (symb, d1)" and r1: "reader_ok d1"
    by blast
  have s1: "state_ok d1"
    using tinf_decode_symbol_reads_some [OF g] r1 "1.prems"(1)
    by (blast intro: reads_on_state_ok reads_some_imp_on)
  show ?case
  proof (cases "overflow d1 \<or> symb = 256")
    case True
    then have "\<exists>st. tinf_inflate_block_data d lt dt = Some (st, d1)"
      using g by (auto simp: tinf_inflate_block_data.simps [of d lt dt])
    with s1 show ?thesis by blast
  next
    case False
    have "\<exists>r d2. (if symb < 256 then inflate_literal d1 symb else inflate_match d1 lt dt symb) =
        Some (r, d2) \<and> state_ok d2"
      using inflate_literal_total [OF s1, of symb] inflate_match_total [OF s1 "1.prems"(3), of lt symb]
      by auto
    then obtain r d2 where
      h: "(if symb < 256 then inflate_literal d1 symb else inflate_match d1 lt dt symb) = Some (r, d2)"
      and s2: "state_ok d2"
      by blast
    show ?thesis
    proof (cases r)
      case (Some st)
      then have "tinf_inflate_block_data d lt dt = Some (st, d2)"
        using g False h by (auto simp: tinf_inflate_block_data.simps [of d lt dt])
      with s2 show ?thesis by blast
    next
      case None
      from False have o: "\<not> overflow d1" "symb \<noteq> 256" by auto
      have "tinf_inflate_block_data d lt dt = tinf_inflate_block_data d2 lt dt"
        using g False h None by (auto simp: tinf_inflate_block_data.simps [of d lt dt])
      with "1.IH" [OF g refl o h refl None s2 "1.prems"(2,3)] show ?thesis by simp
    qed
  qed
qed

lemma tinf_inflate_uncompressed_block_total:
  assumes "state_ok d"
  shows "\<exists>st d'. tinf_inflate_uncompressed_block d = Some (st, d') \<and> state_ok d' \<and>
           ltree d' = ltree d \<and> dtree d' = dtree d"
proof (cases "length (src d) < source d + 4")
  case True
  with assms stored_block_short [OF True] show ?thesis by simp
next
  case False
  then have s4: "source d + 4 \<le> length (src d)" by simp
  then have no: "\<not> overflow d"
    using assms by (auto simp: state_ok_def reader_ok_def sourceEnd_def)
  define n where "n = le16 (src d) (source d)"
  from stored_fields [OF s4] obtain len inv where
    f: "read_le16 d (source d) = Some len" "read_le16 d (source d + 2) = Some inv"
       "unat len = n"
       "len = (NOT inv AND 0x0000FFFF) \<longleftrightarrow> n = 65535 - le16 (src d) (source d + 2)"
    unfolding n_def by blast
  define d1 where "d1 = d\<lparr>source := source d + 4\<rparr>"
  have s1: "state_ok d1"
    using assms s4 no by (simp add: d1_def state_ok_def reader_ok_def sourceEnd_def)
  consider "len \<noteq> (NOT inv AND 0x0000FFFF)"
    | "len = (NOT inv AND 0x0000FFFF)" "length (src d) < source d + 4 + n"
    | "len = (NOT inv AND 0x0000FFFF)" "source d + 4 + n \<le> length (src d)"
      "length (out d) < dest d + n"
    | "len = (NOT inv AND 0x0000FFFF)" "source d + 4 + n \<le> length (src d)"
      "dest d + n \<le> length (out d)"
    by linarith
  then show ?thesis
  proof cases
    case 1
    then have "tinf_inflate_uncompressed_block d = Some (TINF_DATA_ERROR, d)"
      using s4 f by (simp add: tinf_inflate_uncompressed_block_def sourceEnd_def)
    with assms show ?thesis by simp
  next
    case 2
    have "tinf_inflate_uncompressed_block d = Some (TINF_DATA_ERROR, d1)"
      using s4 f(1,2) 2(2)
      by (simp add: tinf_inflate_uncompressed_block_def sourceEnd_def Let_def d1_def f(3)
          2(1) [symmetric] del: of_nat_unat)
    with s1 show ?thesis by (simp add: d1_def)
  next
    case 3
    have "tinf_inflate_uncompressed_block d = Some (TINF_BUF_ERROR, d1)"
      using s4 f(1,2) 3(2,3)
      by (simp add: tinf_inflate_uncompressed_block_def sourceEnd_def destEnd_def Let_def
          d1_def f(3) 3(1) [symmetric] del: of_nat_unat)
    with s1 show ?thesis by (simp add: d1_def)
  next
    case 4
    have eq: "le16 (src d) (source d) = 65535 - le16 (src d) (source d + 2)"
      using 4(1) f(4) by (simp add: n_def)
    from stored_block_copy [OF s4 eq] 4(2,3) obtain d' where
      c: "tinf_inflate_uncompressed_block d = Some (TINF_OK, d')"
         "src d' = src d" "source d' = source d + 4 + n" "dest d' = dest d + n"
         "destLen d' = (destLen d + n) mod 2 ^ 32" "tag d' = 0" "bitcount d' = 0"
         "overflow d' = overflow d" "ltree d' = ltree d" "dtree d' = dtree d"
         "length (out d') = length (out d)"
      unfolding n_def by (fastforce simp: nth_append)
    have "(dest d mod 2 ^ 32 + n) mod 2 ^ 32 = (dest d + n) mod (2 ^ 32 :: nat)"
      by (rule mod_add_left_eq)
    with c assms 4 no have "state_ok d'"
      by (simp add: state_ok_def reader_ok_def writer_ok_def sourceEnd_def destEnd_def)
    with c show ?thesis by simp
  qed
qed

lemma inflate_block_total:
  assumes "state_ok d"
  shows "\<exists>st d'. inflate_block d btype = Some (st, d') \<and> state_ok d'"
proof -
  consider "btype = 0" | "btype = 1" | "btype = 2" | "btype \<noteq> 0 \<and> btype \<noteq> 1 \<and> btype \<noteq> 2"
    by blast
  then show ?thesis
  proof cases
    case 1
    with tinf_inflate_uncompressed_block_total [OF assms] show ?thesis
      by (auto simp: inflate_block_def)
  next
    case 2
    define d1 where "d1 = tinf_build_fixed_trees d"
    have t: "tree_ok (ltree d1)" "tree_ok (dtree d1)"
      using assms fixed_trees_ok [of "ltree d" "dtree d"]
      by (simp_all add: d1_def tinf_build_fixed_trees_def state_ok_def)
    then have "state_ok d1"
      using assms by (simp add: d1_def tinf_build_fixed_trees_def state_ok_def tree_ok_def)
    from tinf_inflate_block_data_total [OF this t(1), of "dtree d1"] t(2) 2 show ?thesis
      by (simp add: inflate_block_def tinf_inflate_fixed_block_def d1_def [symmetric])
  next
    case 3
    from assms have "reader_ok d" "length (trans_tab (ltree d)) = 288"
      "length (trans_tab (dtree d)) = 288"
      by (simp_all add: state_ok_def)
    from tinf_decode_trees_total [OF this] obtain res d1 where
      a: "tinf_decode_trees d = Some (res, d1)" and
      s: "reader_ok d1" "out d1 = out d" "dest d1 = dest d" "destLen d1 = destLen d"
         "length (trans_tab (ltree d1)) = 288" "length (trans_tab (dtree d1)) = 288" and
      t: "res = TINF_OK \<longrightarrow>
            tree_ok (ltree d1) \<and> (max_sym (dtree d1) \<noteq> - 1 \<longrightarrow> tree_ok (dtree d1))"
      by blast
    have s1: "state_ok d1"
      using s assms by (simp add: state_ok_def writer_ok_cong [of d1 d])
    show ?thesis
    proof (cases "res = TINF_OK")
      case False
      with 3 a s1 show ?thesis
        by (simp add: inflate_block_def tinf_inflate_dynamic_block_def)
    next
      case True
      with t have "tree_ok (ltree d1)" "max_sym (dtree d1) \<noteq> - 1 \<longrightarrow> tree_ok (dtree d1)"
        by simp_all
      from tinf_inflate_block_data_total [OF s1 this] 3 a True show ?thesis
        by (simp add: inflate_block_def tinf_inflate_dynamic_block_def)
    qed
  next
    case 4
    with assms show ?thesis by (simp add: inflate_block_def)
  qed
qed

lemma inflate_blocks_total:
  "state_ok d \<Longrightarrow> \<exists>st d'. inflate_blocks d = Some (st, d') \<and> state_ok d'"
proof (induction d rule: inflate_blocks.induct)
  case (1 d)
  from "1.prems" have r: "reader_ok d" by (simp add: state_ok_def)
  from tinf_getbits_total [OF r, of 1] obtain bfinal d1 where
    g1: "tinf_getbits d 1 = Some (bfinal, d1)" and r1: "reader_ok d1"
    by auto
  from tinf_getbits_total [OF r1, of 2] obtain btype d2 where
    g2: "tinf_getbits d1 2 = Some (btype, d2)" and r2: "reader_ok d2"
    by auto
  have "reads_on d d2"
    using g1 g2 by (blast intro: reads_on_trans tinf_getbits_reads_on)
  then have s2: "state_ok d2" using r2 "1.prems" by (rule reads_on_state_ok)
  from inflate_block_total [OF s2, of btype] obtain res d3 where
    b: "inflate_block d2 btype = Some (res, d3)" and s3: "state_ok d3"
    by blast
  show ?case
  proof (cases "res = TINF_OK \<and> bfinal = 0")
    case False
    then have "\<exists>st. inflate_blocks d = Some (st, d3)"
      using g1 g2 b by (auto simp: inflate_blocks.simps [of d])
    with s3 show ?thesis by blast
  next
    case True
    then have "inflate_blocks d = inflate_blocks d3"
      using g1 g2 b by (simp add: inflate_blocks.simps [of d])
    moreover from True have "\<not> res \<noteq> TINF_OK" "bfinal = 0" by simp_all
    note "1.IH" [OF g1 refl g2 refl b refl this s3]
    ultimately show ?thesis by simp
  qed
qed

lemma tinf_init_ok: "state_ok (tinf_init dst srcs)"
  by (simp add: state_ok_def reader_ok_def writer_ok_def tinf_init_def uninit_tree_def
      sourceEnd_def destEnd_def)

lemma inflate_blocks_runs_on:
  "inflate_blocks d = Some (st, d') \<Longrightarrow> runs_on d d'"
proof (induction d arbitrary: st d' rule: inflate_blocks.induct)
  case (1 d)
  from "1.prems" obtain bfinal d1 btype d2 res d3 where
    g1: "tinf_getbits d 1 = Some (bfinal, d1)" and
    g2: "tinf_getbits d1 2 = Some (btype, d2)" and
    b: "inflate_block d2 btype = Some (res, d3)"
    by (auto simp: inflate_blocks.simps [of d] split: Option.bind_splits)
  have s3: "runs_on d d3"
    using g1 g2 b
    by (blast intro: runs_on_trans reads_on_runs_on tinf_getbits_reads_on
        inflate_block_runs_on [THEN conjunct1])
  show ?case
  proof (cases "res = TINF_OK \<and> bfinal = 0")
    case False
    with "1.prems" g1 g2 b have "d' = d3"
      by (auto simp: inflate_blocks.simps [of d] split: if_splits)
    with s3 show ?thesis by simp
  next
    case True
    with "1.prems" g1 g2 b have r: "inflate_blocks d3 = Some (st, d')"
      by (simp add: inflate_blocks.simps [of d])
    from True have "\<not> res \<noteq> TINF_OK" "bfinal = 0" by simp_all
    from "1.IH" [OF g1 refl g2 refl b refl this r] s3 show ?thesis
      by (blast intro: runs_on_trans)
  qed
qed

text \<open>The whole call: it returns, in a state that is in order.\<close>

lemma tinf_uncompress_state_total:
  "\<exists>st n d. tinf_uncompress_state dst srcs = Some (st, n, d) \<and> state_ok d \<and>
     runs_on (tinf_init dst srcs) d \<and> (n = 0 \<or> st = TINF_OK \<and> n = destLen d)"
proof -
  from inflate_blocks_total [OF tinf_init_ok, of dst srcs] obtain res d where
    b: "inflate_blocks (tinf_init dst srcs) = Some (res, d)" and s: "state_ok d"
    by blast
  note r = inflate_blocks_runs_on [OF b]
  have "\<exists>st n. tinf_uncompress_state dst srcs = Some (st, n, d) \<and>
      (n = 0 \<or> st = TINF_OK \<and> n = destLen d)"
    using b by (simp add: tinf_uncompress_state_def)
  with s r show ?thesis by blast
qed

section \<open>Evaluating the decoder on concrete input\<close>

lemma bind_weak_cong: "x = y \<Longrightarrow> Option.bind x f = Option.bind y f"
  by simp

lemma fixed_ltree_table:
  "table (fixed_ltree t) = [0, 0, 0, 0, 0, 0, 0, 24, 152, 112, 0, 0, 0, 0, 0, 0]"
  by (simp add: fixed_ltree_def replicate_16)

lemma fixed_dtree_table:
  "table (fixed_dtree t) = [0, 0, 0, 0, 0, 32, 0, 0, 0, 0, 0, 0, 0, 0, 0, 0]"
  by (simp add: fixed_dtree_def replicate_16)

lemma fixed_ltree_trans:
  "n < 288 \<Longrightarrow> trans_tab (fixed_ltree t) ! n =
     (if n < 24 then 256 + n else if n < 168 then n - 24
      else if n < 176 then 280 + (n - 168) else 144 + (n - 176))"
  by (auto simp: fixed_ltree_def store_list_def nth_append)

lemma fixed_dtree_trans:
  "n < 32 \<Longrightarrow> trans_tab (fixed_dtree t) ! n = n"
  by (auto simp: fixed_dtree_def store_list_def nth_append)

lemma fixed_max_sym: "max_sym (fixed_ltree t) = 285" "max_sym (fixed_dtree t) = 29"
  by (simp_all add: fixed_ltree_def fixed_dtree_def)

lemmas eval_reader =
  tinf_getbits_def tinf_refill_def refill_loop.simps tinf_getbits_no_refill_def
  tinf_getbits_base_def src_read_def sourceEnd_def destEnd_def
  tinf_decode_symbol_def decode_loop.simps Let_def

lemmas eval_fixed =
  fixed_ltree_table fixed_dtree_table fixed_ltree_trans fixed_dtree_trans fixed_max_sym

lemmas eval_blocks =
  tinf_uncompress_state_def inflate_blocks.simps inflate_block_def
  tinf_inflate_fixed_block_def tinf_build_fixed_trees_def
  tinf_inflate_block_data.simps inflate_literal_def inflate_match_def decode_match_def
  copy_checked_def copy_match.simps dest_read_def dest_write_def
  length_bits_def length_base_def dist_bits_def dist_base_def

section \<open>Overflow of the bit reader\<close>





lemma nth_take_lower:
  assumes "\<forall>x \<in> set (take n xs). (m :: nat) \<le> x" and "s < n" and "n \<le> length xs"
  shows "m \<le> xs ! s"
proof -
  have "take n xs ! s \<in> set (take n xs)"
    using assms(2,3) by (intro nth_mem) simp
  with assms(1,2) show ?thesis by simp
qed

lemma dist_base_ge: "s \<le> 29 \<Longrightarrow> 1 \<le> dist_base ! s"
  by (rule nth_take_lower [where n = 30]) (simp_all add: dist_base_def)

lemma decode_match_offs:
  assumes "decode_match d lt dt symb = Some (Some (len, offs), d')"
  shows "1 \<le> offs"
proof -
  from assms obtain dist d2 where
    "\<not> 29 < dist" "tinf_getbits_base d2 (dist_bits ! dist) (dist_base ! dist) = Some (offs, d')"
    by (auto simp: decode_match_def split: if_splits Option.bind_splits)
  with tinf_getbits_base_ge [of d2 "dist_bits ! dist" "dist_base ! dist" offs d']
    dist_base_ge [of dist]
  show ?thesis by simp
qed

section \<open>Written output stays\<close>

lemma stored_copy_unfold:
  "stored_copy d n =
     (if n = 0 then Some d
      else do {
        b \<leftarrow> src_read d (source d);
        d1 \<leftarrow> dest_write d (dest d) b;
        stored_copy (d1\<lparr>dest := dest d1 + 1, source := source d1 + 1\<rparr>) (n - 1)
      })"
  by (cases n) simp_all

lemmas eval_stored =
  tinf_inflate_uncompressed_block_def read_le16_def stored_copy_unfold

text \<open>
  \<open>keeps_written d d'\<close>: the write cursor has not moved back and the output below
  the old cursor is as it was.
\<close>

definition keeps_written :: "tinf_data \<Rightarrow> tinf_data \<Rightarrow> bool" where
  "keeps_written d d' \<longleftrightarrow> dest d \<le> dest d' \<and> (\<forall>k < dest d. out d' ! k = out d ! k)"

lemma keeps_written_refl [simp]: "keeps_written d d"
  by (simp add: keeps_written_def)

lemma keeps_written_trans: "keeps_written a b \<Longrightarrow> keeps_written b c \<Longrightarrow> keeps_written a c"
  by (auto simp: keeps_written_def)

lemma reads_on_keeps_written: "reads_on d d' \<Longrightarrow> keeps_written d d'"
  by (simp add: reads_on_def keeps_written_def)

lemma copy_match_keeps:
  "copy_match d offs len i = Some d' \<Longrightarrow> \<forall>k < dest d + i. out d' ! k = out d ! k"
proof (induction d offs len i arbitrary: d' rule: copy_match.induct)
  case (1 d offs len i)
  show ?case
  proof (cases "i < len")
    case False
    with "1.prems" show ?thesis by (simp add: copy_match.simps [of d offs len i])
  next
    case True
    from "1.prems" True obtain b d1 where
      b: "dest_read d (int (dest d) + int i - int offs) = Some b" and
      w: "dest_write d (dest d + i) b = Some d1" and
      r: "copy_match d1 offs len (i + 1) = Some d'"
      by (auto simp: copy_match.simps [of d offs len i] split: Option.bind_splits)
    from w have d1: "d1 = d\<lparr>out := (out d)[dest d + i := b]\<rparr>"
      by (auto simp: dest_write_def split: if_splits)
    from "1.IH" [OF True b w r] d1 show ?thesis by simp
  qed
qed

lemma copy_checked_keeps:
  "copy_checked d offs len = Some (r, d') \<Longrightarrow> keeps_written d d'"
  by (auto simp: copy_checked_def keeps_written_def split: if_splits Option.bind_splits
      dest: copy_match_keeps copy_match_frame)

lemma inflate_literal_keeps:
  "inflate_literal d symb = Some (r, d') \<Longrightarrow> keeps_written d d'"
  by (auto simp: inflate_literal_def dest_write_def keeps_written_def
      split: if_splits Option.bind_splits)

lemma inflate_match_keeps:
  assumes "inflate_match d lt dt symb = Some (r, d')"
  shows "keeps_written d d'"
proof -
  from assms obtain r3 d3 where
    a: "decode_match d lt dt symb = Some (r3, d3)"
    by (auto simp: inflate_match_def split: Option.bind_splits)
  then have s: "keeps_written d d3"
    by (blast intro: reads_on_keeps_written decode_match_reads_on)
  show ?thesis
  proof (cases r3)
    case None
    with assms a have "d' = d3" by (simp add: inflate_match_def)
    with s show ?thesis by simp
  next
    case (Some lo)
    with assms a obtain len offs where "copy_checked d3 offs len = Some (r, d')"
      by (cases lo) (simp add: inflate_match_def)
    with s show ?thesis by (blast intro: keeps_written_trans copy_checked_keeps)
  qed
qed

lemma tinf_inflate_block_data_keeps:
  "tinf_inflate_block_data d lt dt = Some (st, d') \<Longrightarrow> keeps_written d d'"
proof (induction d lt dt arbitrary: st d' rule: tinf_inflate_block_data.induct)
  case (1 d lt dt)
  from "1.prems" obtain symb d1 where
    g: "tinf_decode_symbol d lt = Some (symb, d1)"
    by (auto simp: tinf_inflate_block_data.simps [of d lt dt] split: Option.bind_splits)
  have s: "keeps_written d d1"
    using g by (blast intro: reads_on_keeps_written reads_some_imp_on tinf_decode_symbol_reads_some)
  show ?case
  proof (cases "overflow d1 \<or> symb = 256")
    case True
    with "1.prems" g have "d' = d1"
      by (auto simp: tinf_inflate_block_data.simps [of d lt dt] split: if_splits)
    with s show ?thesis by simp
  next
    case False
    with "1.prems" g obtain r d2 where
      h: "(if symb < 256 then inflate_literal d1 symb else inflate_match d1 lt dt symb) = Some (r, d2)"
      by (auto simp: tinf_inflate_block_data.simps [of d lt dt] split: Option.bind_splits)
    then have t: "keeps_written d1 d2"
      by (auto split: if_splits dest: inflate_literal_keeps inflate_match_keeps)
    show ?thesis
    proof (cases r)
      case (Some st')
      with "1.prems" g False h have "d' = d2"
        by (auto simp: tinf_inflate_block_data.simps [of d lt dt])
      with s t show ?thesis by (auto intro: keeps_written_trans)
    next
      case None
      with "1.prems" g False h have
        r: "tinf_inflate_block_data d2 lt dt = Some (st, d')"
        by (auto simp: tinf_inflate_block_data.simps [of d lt dt])
      from False have o: "\<not> overflow d1" "symb \<noteq> 256" by auto
      from "1.IH" [OF g refl o h refl None r] s t show ?thesis
        by (blast intro: keeps_written_trans)
    qed
  qed
qed

lemma stored_copy_keeps:
  "stored_copy d n = Some d' \<Longrightarrow> \<forall>k < dest d. out d' ! k = out d ! k"
proof (induction n arbitrary: d)
  case 0
  then show ?case by simp
next
  case (Suc n)
  from Suc.prems obtain b where
    r: "stored_copy (d\<lparr>out := (out d)[dest d := b], dest := dest d + 1, source := source d + 1\<rparr>) n
          = Some d'"
    by (auto simp: dest_write_def split: Option.bind_splits if_splits)
  from Suc.IH [OF r] show ?case by simp
qed

lemma tinf_inflate_uncompressed_block_keeps:
  assumes "tinf_inflate_uncompressed_block d = Some (st, d')"
  shows "keeps_written d d'"
proof (cases "st = TINF_OK")
  case False
  with assms show ?thesis
    by (auto simp: tinf_inflate_uncompressed_block_def Let_def keeps_written_def
        split: if_splits Option.bind_splits)
next
  case True
  with assms obtain n d2 where
    c: "stored_copy (d\<lparr>source := source d + 4\<rparr>) n = Some d2" and
    e: "out d' = out d2" "dest d' = dest d2"
    by (fastforce simp: tinf_inflate_uncompressed_block_def Let_def
        split: if_splits Option.bind_splits)
  from stored_copy_keeps [OF c] stored_copy_frame [OF c] e show ?thesis
    by (simp add: keeps_written_def)
qed

lemma tinf_decode_trees_keeps:
  assumes "tinf_decode_trees d = Some (st, d')"
  shows "out d' = out d \<and> dest d' = dest d"
proof -
  from assms obtain hlit d1 hdist d2 hclen d3 where
    a: "tinf_getbits_base d 5 257 = Some (hlit, d1)"
       "tinf_getbits_base d1 5 1 = Some (hdist, d2)"
       "tinf_getbits_base d2 4 4 = Some (hclen, d3)"
    by (auto simp: tinf_decode_trees_def split: Option.bind_splits)
  then have s3: "reads_on d d3"
    by (blast intro: reads_on_trans tinf_getbits_base_reads_on)
  show ?thesis
  proof (cases "hlit > 286 \<or> hdist > 30")
    case True
    with assms a have "d' = d3" by (auto simp: tinf_decode_trees_def)
    with s3 show ?thesis by (simp add: reads_on_def)
  next
    case False
    with assms a obtain lengths1 d4 res lt where
      b: "read_clens d3 (replicate 320 0) (take hclen clcidx) = Some (lengths1, d4)" and
      c: "tinf_build_tree (ltree d4) lengths1 19 = Some (res, lt)"
      by (auto simp: tinf_decode_trees_def split: Option.bind_splits)
    have s4: "out d4 = out d \<and> dest d4 = dest d"
      using s3 read_clens_reads_on [OF b] by (simp add: reads_on_def)
    show ?thesis
    proof (cases "res \<noteq> TINF_OK \<or> max_sym lt = - 1")
      case True
      with assms a False b c have "d' = d4\<lparr>ltree := lt\<rparr>"
        by (auto simp: tinf_decode_trees_def Let_def split: if_splits)
      with s4 show ?thesis by simp
    next
      case ok: False
      with assms a False b c obtain res2 lengths2 d6 where
        e: "decode_lengths (d4\<lparr>ltree := lt\<rparr>) lt lengths1 0 (hlit + hdist) = Some (res2, lengths2, d6)"
        by (auto simp: tinf_decode_trees_def Let_def split: Option.bind_splits)
      have s6: "out d6 = out d \<and> dest d6 = dest d"
        using s4 decode_lengths_reads_on [OF e] by (simp add: reads_on_def)
      from assms a False b c ok e have "out d' = out d6 \<and> dest d' = dest d6"
        by (auto simp: tinf_decode_trees_def Let_def split: Option.bind_splits if_splits)
      with s6 show ?thesis by simp
    qed
  qed
qed

lemma inflate_block_keeps:
  assumes "inflate_block d btype = Some (st, d')"
  shows "keeps_written d d'"
proof -
  consider "btype = 0" | "btype = 1" | "btype = 2" | "btype \<noteq> 0 \<and> btype \<noteq> 1 \<and> btype \<noteq> 2"
    by blast
  then show ?thesis
  proof cases
    case 1
    with assms show ?thesis
      by (auto simp: inflate_block_def dest: tinf_inflate_uncompressed_block_keeps)
  next
    case 2
    with assms have
      "tinf_inflate_block_data (tinf_build_fixed_trees d) (ltree (tinf_build_fixed_trees d))
         (dtree (tinf_build_fixed_trees d)) = Some (st, d')"
      by (simp add: inflate_block_def tinf_inflate_fixed_block_def Let_def)
    from tinf_inflate_block_data_keeps [OF this] show ?thesis
      by (simp add: keeps_written_def tinf_build_fixed_trees_def)
  next
    case 3
    with assms obtain res d1 where
      a: "tinf_decode_trees d = Some (res, d1)"
      by (auto simp: inflate_block_def tinf_inflate_dynamic_block_def split: Option.bind_splits)
    note s = tinf_decode_trees_keeps [OF a]
    show ?thesis
    proof (cases "res \<noteq> TINF_OK")
      case True
      with assms 3 a have "d' = d1"
        by (auto simp: inflate_block_def tinf_inflate_dynamic_block_def)
      with s show ?thesis by (simp add: keeps_written_def)
    next
      case False
      with assms 3 a have
        "tinf_inflate_block_data d1 (ltree d1) (dtree d1) = Some (st, d')"
        by (auto simp: inflate_block_def tinf_inflate_dynamic_block_def)
      from tinf_inflate_block_data_keeps [OF this] s show ?thesis
        by (simp add: keeps_written_def)
    qed
  next
    case 4
    with assms show ?thesis by (auto simp: inflate_block_def)
  qed
qed

lemma inflate_blocks_keeps:
  "inflate_blocks d = Some (st, d') \<Longrightarrow> keeps_written d d'"
proof (induction d arbitrary: st d' rule: inflate_blocks.induct)
  case (1 d)
  from "1.prems" obtain bfinal d1 btype d2 res d3 where
    g1: "tinf_getbits d 1 = Some (bfinal, d1)" and
    g2: "tinf_getbits d1 2 = Some (btype, d2)" and
    b: "inflate_block d2 btype = Some (res, d3)"
    by (auto simp: inflate_blocks.simps [of d] split: Option.bind_splits)
  have s3: "keeps_written d d3"
    using g1 g2 b
    by (blast intro: keeps_written_trans reads_on_keeps_written tinf_getbits_reads_on
        inflate_block_keeps)
  show ?case
  proof (cases "res = TINF_OK \<and> bfinal = 0")
    case False
    with "1.prems" g1 g2 b have "d' = d3"
      by (auto simp: inflate_blocks.simps [of d] split: if_splits)
    with s3 show ?thesis by simp
  next
    case True
    with "1.prems" g1 g2 b have r: "inflate_blocks d3 = Some (st, d')"
      by (simp add: inflate_blocks.simps [of d])
    from True have "\<not> res \<noteq> TINF_OK" "bfinal = 0" by simp_all
    from "1.IH" [OF g1 refl g2 refl b refl this r] s3 show ?thesis
      by (blast intro: keeps_written_trans)
  qed
qed

section \<open>The states a call passes through\<close>

text \<open>
  The points of \<^verbatim>\<open>tinf_uncompress\<close> at which the decoder state is looked at: the head
  of the block loop (line 562), the head of the symbol loop \<^verbatim>\<open>for (;;)\<close> of
  \<^verbatim>\<open>tinf_inflate_block_data\<close> (line 399) in a block with the given final flag and
  trees, and the end of the block loop after a final block (line 594).
\<close>

datatype point = Block_head | Symbol_head nat tinf_tree tinf_tree | Finished

definition after_block :: "nat \<Rightarrow> point" where
  "after_block bfinal = (if bfinal = 0 then Block_head else Finished)"

text \<open>
  \<open>visits d0 p e\<close>: the block loop started in state \<open>d0\<close> comes to the point \<open>p\<close> in
  state \<open>e\<close>. Each rule is one step of the code that does not return: the header of a
  fixed or dynamic block up to the first round of the symbol loop, one round of the
  symbol loop that writes a literal or copies a match, the end-of-block symbol, and a
  stored block (all of whose checks come before its copy loop).
\<close>

inductive visits :: "tinf_data \<Rightarrow> point \<Rightarrow> tinf_data \<Rightarrow> bool" for d0 :: tinf_data where
  start: "visits d0 Block_head d0"
| stored:
    "visits d0 Block_head e \<Longrightarrow> tinf_getbits e 1 = Some (bfinal, e1) \<Longrightarrow>
     tinf_getbits e1 2 = Some (0, e2) \<Longrightarrow>
     tinf_inflate_uncompressed_block e2 = Some (TINF_OK, e3) \<Longrightarrow>
     visits d0 (after_block bfinal) e3"
| fixed:
    "visits d0 Block_head e \<Longrightarrow> tinf_getbits e 1 = Some (bfinal, e1) \<Longrightarrow>
     tinf_getbits e1 2 = Some (1, e2) \<Longrightarrow> e3 = tinf_build_fixed_trees e2 \<Longrightarrow>
     visits d0 (Symbol_head bfinal (ltree e3) (dtree e3)) e3"
| dynamic:
    "visits d0 Block_head e \<Longrightarrow> tinf_getbits e 1 = Some (bfinal, e1) \<Longrightarrow>
     tinf_getbits e1 2 = Some (2, e2) \<Longrightarrow> tinf_decode_trees e2 = Some (TINF_OK, e3) \<Longrightarrow>
     visits d0 (Symbol_head bfinal (ltree e3) (dtree e3)) e3"
| literal:
    "visits d0 (Symbol_head bfinal lt dt) c \<Longrightarrow> tinf_decode_symbol c lt = Some (symb, c1) \<Longrightarrow>
     \<not> overflow c1 \<Longrightarrow> symb < 256 \<Longrightarrow> inflate_literal c1 symb = Some (None, c2) \<Longrightarrow>
     visits d0 (Symbol_head bfinal lt dt) c2"
| match:
    "visits d0 (Symbol_head bfinal lt dt) c \<Longrightarrow> tinf_decode_symbol c lt = Some (symb, c1) \<Longrightarrow>
     \<not> overflow c1 \<Longrightarrow> 256 < symb \<Longrightarrow> inflate_match c1 lt dt symb = Some (None, c2) \<Longrightarrow>
     visits d0 (Symbol_head bfinal lt dt) c2"
| end_of_block:
    "visits d0 (Symbol_head bfinal lt dt) c \<Longrightarrow> tinf_decode_symbol c lt = Some (256, c1) \<Longrightarrow>
     \<not> overflow c1 \<Longrightarrow> visits d0 (after_block bfinal) c1"

code_pred visits .

text \<open>What the call still does from a point: the rest of the block loop.\<close>

fun rest_of_run :: "point \<Rightarrow> tinf_data \<Rightarrow> (status \<times> tinf_data) option" where
  "rest_of_run Block_head e = inflate_blocks e"
| "rest_of_run (Symbol_head bfinal lt dt) e =
     do {
       (res, e') \<leftarrow> tinf_inflate_block_data e lt dt;
       if res \<noteq> TINF_OK then Some (res, e')
       else if bfinal = 0 then inflate_blocks e'
       else Some (TINF_OK, e')
     }"
| "rest_of_run Finished e = Some (TINF_OK, e)"

lemma rest_of_run_after_block:
  "rest_of_run (after_block bfinal) e =
     (if bfinal = 0 then inflate_blocks e else Some (TINF_OK, e))"
  by (simp add: after_block_def)

lemma visits_rest_of_run:
  "visits d0 p e \<Longrightarrow> rest_of_run p e = inflate_blocks d0"
proof (induction rule: visits.induct)
  case start
  show ?case by simp
next
  case (stored e bfinal e1 e2 e3)
  have "inflate_blocks e = rest_of_run (after_block bfinal) e3"
    using stored.hyps(2,3,4)
    by (simp add: inflate_blocks.simps [of e] inflate_block_def rest_of_run_after_block)
  with stored.IH show ?case by simp
next
  case (fixed e bfinal e1 e2 e3)
  have "inflate_blocks e = rest_of_run (Symbol_head bfinal (ltree e3) (dtree e3)) e3"
    using fixed.hyps(2,3,4)
    by (simp add: inflate_blocks.simps [of e] inflate_block_def tinf_inflate_fixed_block_def
        Let_def)
  with fixed.IH show ?case by simp
next
  case (dynamic e bfinal e1 e2 e3)
  have "inflate_blocks e = rest_of_run (Symbol_head bfinal (ltree e3) (dtree e3)) e3"
    using dynamic.hyps(2,3,4)
    by (simp add: inflate_blocks.simps [of e] inflate_block_def tinf_inflate_dynamic_block_def)
  with dynamic.IH show ?case by simp
next
  case (literal bfinal lt dt c symb c1 c2)
  have "tinf_inflate_block_data c lt dt = tinf_inflate_block_data c2 lt dt"
    using literal.hyps(2-5) by (simp add: tinf_inflate_block_data.simps [of c lt dt])
  with literal.IH show ?case by simp
next
  case (match bfinal lt dt c symb c1 c2)
  have "tinf_inflate_block_data c lt dt = tinf_inflate_block_data c2 lt dt"
    using match.hyps(2-5) by (simp add: tinf_inflate_block_data.simps [of c lt dt])
  with match.IH show ?case by simp
next
  case (end_of_block bfinal lt dt c c1)
  have "tinf_inflate_block_data c lt dt = Some (TINF_OK, c1)"
    using end_of_block.hyps(2,3) by (simp add: tinf_inflate_block_data.simps [of c lt dt])
  with end_of_block.IH show ?case by (simp add: rest_of_run_after_block)
qed

lemma rest_of_run_keeps:
  assumes "rest_of_run p e = Some (st, d')"
  shows "keeps_written e d'"
proof (cases p)
  case Block_head
  with assms show ?thesis by (simp add: inflate_blocks_keeps)
next
  case (Symbol_head bfinal lt dt)
  with assms obtain res e' where
    b: "tinf_inflate_block_data e lt dt = Some (res, e')" and
    r: "(if res \<noteq> TINF_OK then Some (res, e')
         else if bfinal = 0 then inflate_blocks e' else Some (TINF_OK, e')) = Some (st, d')"
    by (auto split: Option.bind_splits)
  note k = tinf_inflate_block_data_keeps [OF b]
  from r have "keeps_written e' d'"
    by (auto split: if_splits dest: inflate_blocks_keeps)
  with k show ?thesis by (rule keeps_written_trans)
next
  case Finished
  with assms show ?thesis by simp
qed

lemma visits_keeps:
  "visits d0 p e \<Longrightarrow> inflate_blocks d0 = Some (st, d') \<Longrightarrow> keeps_written e d'"
  by (rule rest_of_run_keeps [of p]) (simp add: visits_rest_of_run)

text \<open>
  A return leaves the output and the write cursor as they were at a point the call
  passed through: the step that returns has written nothing.
\<close>

lemma inflate_literal_error:
  "inflate_literal d symb = Some (Some st, d') \<Longrightarrow> d' = d"
  by (auto simp: inflate_literal_def split: if_splits Option.bind_splits)

lemma copy_checked_error:
  "copy_checked d offs len = Some (Some st, d') \<Longrightarrow> d' = d"
  by (auto simp: copy_checked_def split: if_splits Option.bind_splits)

lemma inflate_match_error:
  assumes "inflate_match d lt dt symb = Some (Some st, d')"
  shows "out d' = out d \<and> dest d' = dest d"
proof -
  from assms obtain r3 d3 where
    a: "decode_match d lt dt symb = Some (r3, d3)"
    by (auto simp: inflate_match_def split: Option.bind_splits)
  from decode_match_reads_on [OF a] have s: "out d3 = out d \<and> dest d3 = dest d"
    by (simp add: reads_on_def)
  show ?thesis
  proof (cases r3)
    case None
    with assms a have "d' = d3" by (simp add: inflate_match_def)
    with s show ?thesis by simp
  next
    case (Some lo)
    with assms a obtain len offs where "copy_checked d3 offs len = Some (Some st, d')"
      by (cases lo) (simp add: inflate_match_def)
    then have "d' = d3" by (rule copy_checked_error)
    with s show ?thesis by simp
  qed
qed

lemma tinf_inflate_uncompressed_block_error:
  "tinf_inflate_uncompressed_block d = Some (st, d') \<Longrightarrow> st \<noteq> TINF_OK \<Longrightarrow>
   out d' = out d \<and> dest d' = dest d"
  by (auto simp: tinf_inflate_uncompressed_block_def Let_def
      split: if_splits Option.bind_splits)

lemma tinf_inflate_block_data_returns:
  "tinf_inflate_block_data e lt dt = Some (st, d') \<Longrightarrow> visits d0 (Symbol_head bf lt dt) e \<Longrightarrow>
   (st = TINF_OK \<longrightarrow> visits d0 (after_block bf) d') \<and>
   (\<exists>p c. visits d0 p c \<and> out d' = out c \<and> dest d' = dest c)"
proof (induction e lt dt arbitrary: st d' rule: tinf_inflate_block_data.induct)
  case (1 d lt dt)
  note v = "1.prems"(2)
  from "1.prems"(1) obtain symb d1 where
    g: "tinf_decode_symbol d lt = Some (symb, d1)"
    by (auto simp: tinf_inflate_block_data.simps [of d lt dt] split: Option.bind_splits)
  have s: "out d1 = out d \<and> dest d1 = dest d"
    using reads_some_imp_on [OF tinf_decode_symbol_reads_some [OF g]]
    by (simp add: reads_on_def)
  show ?case
  proof (cases "overflow d1")
    case True
    with "1.prems"(1) g have "d' = d1" "st = TINF_DATA_ERROR"
      by (auto simp: tinf_inflate_block_data.simps [of d lt dt])
    with s v show ?thesis by auto
  next
    case o: False
    show ?thesis
    proof (cases "symb = 256")
      case True
      with "1.prems"(1) g o have e: "d' = d1" "st = TINF_OK"
        by (auto simp: tinf_inflate_block_data.simps [of d lt dt])
      from v g o True have "visits d0 (after_block bf) d1"
        by (auto intro: visits.end_of_block)
      with e show ?thesis by auto
    next
      case n: False
      with "1.prems"(1) g o obtain r d2 where
        h: "(if symb < 256 then inflate_literal d1 symb else inflate_match d1 lt dt symb)
              = Some (r, d2)"
        by (auto simp: tinf_inflate_block_data.simps [of d lt dt] split: Option.bind_splits)
      show ?thesis
      proof (cases r)
        case (Some st')
        with "1.prems"(1) g o n h have e: "d' = d2" "st = st'"
          by (auto simp: tinf_inflate_block_data.simps [of d lt dt])
        from h Some have "st' \<noteq> TINF_OK" "out d2 = out d1 \<and> dest d2 = dest d1"
          by (auto split: if_splits
              dest: inflate_literal_not_ok inflate_match_not_ok inflate_literal_error
                inflate_match_error)
        with e s v show ?thesis by auto
      next
        case None
        with "1.prems"(1) g o n h have
          r: "tinf_inflate_block_data d2 lt dt = Some (st, d')"
          by (auto simp: tinf_inflate_block_data.simps [of d lt dt])
        have "visits d0 (Symbol_head bf lt dt) d2"
        proof (cases "symb < 256")
          case True
          with h None have "inflate_literal d1 symb = Some (None, d2)" by simp
          with v g o True show ?thesis by (rule visits.literal)
        next
          case False
          with n have b: "256 < symb" by simp
          from h None False have "inflate_match d1 lt dt symb = Some (None, d2)" by simp
          with v g o b show ?thesis by (rule visits.match)
        qed
        with "1.IH" [OF g refl o n h refl None r] show ?thesis .
      qed
    qed
  qed
qed

lemma inflate_block_returns:
  assumes "visits d0 Block_head e" and "tinf_getbits e 1 = Some (bfinal, d1)"
    and "tinf_getbits d1 2 = Some (btype, d2)" and "inflate_block d2 btype = Some (res, d3)"
  shows "(res = TINF_OK \<longrightarrow> visits d0 (after_block bfinal) d3) \<and>
         (\<exists>p c. visits d0 p c \<and> out d3 = out c \<and> dest d3 = dest c)"
proof -
  have s: "out d2 = out e \<and> dest d2 = dest e"
    using tinf_getbits_reads_on [OF assms(2)] tinf_getbits_reads_on [OF assms(3)]
    by (simp add: reads_on_def)
  consider "btype = 0" | "btype = 1" | "btype = 2" | "btype \<noteq> 0 \<and> btype \<noteq> 1 \<and> btype \<noteq> 2"
    by blast
  then show ?thesis
  proof cases
    case 1
    with assms(4) have b: "tinf_inflate_uncompressed_block d2 = Some (res, d3)"
      by (simp add: inflate_block_def)
    show ?thesis
    proof (cases "res = TINF_OK")
      case True
      with b assms(1,2,3) 1 have "visits d0 (after_block bfinal) d3"
        by (auto intro: visits.stored)
      then show ?thesis by auto
    next
      case False
      with tinf_inflate_uncompressed_block_error [OF b] s assms(1) show ?thesis by auto
    qed
  next
    case 2
    let ?t = "tinf_build_fixed_trees d2"
    from 2 assms(4) have
      b: "tinf_inflate_block_data ?t (ltree ?t) (dtree ?t) = Some (res, d3)"
      by (simp add: inflate_block_def tinf_inflate_fixed_block_def Let_def)
    from assms(1,2,3) 2 have "visits d0 (Symbol_head bfinal (ltree ?t) (dtree ?t)) ?t"
      by (auto intro: visits.fixed)
    with b show ?thesis by (rule tinf_inflate_block_data_returns)
  next
    case 3
    with assms(4) obtain r t where
      a: "tinf_decode_trees d2 = Some (r, t)"
      by (auto simp: inflate_block_def tinf_inflate_dynamic_block_def split: Option.bind_splits)
    show ?thesis
    proof (cases "r = TINF_OK")
      case False
      with assms(4) 3 a have "d3 = t" "res = r"
        by (auto simp: inflate_block_def tinf_inflate_dynamic_block_def)
      with tinf_decode_trees_keeps [OF a] s assms(1) False show ?thesis by auto
    next
      case True
      with assms(4) 3 a have
        b: "tinf_inflate_block_data t (ltree t) (dtree t) = Some (res, d3)"
        by (auto simp: inflate_block_def tinf_inflate_dynamic_block_def)
      from assms(1,2,3) 3 a True have "visits d0 (Symbol_head bfinal (ltree t) (dtree t)) t"
        by (auto intro: visits.dynamic)
      with b show ?thesis by (rule tinf_inflate_block_data_returns)
    qed
  next
    case 4
    with assms(4) have "d3 = d2" "res = TINF_DATA_ERROR"
      by (auto simp: inflate_block_def)
    with s assms(1) show ?thesis by auto
  qed
qed

lemma inflate_blocks_returns:
  "inflate_blocks e = Some (st, d') \<Longrightarrow> visits d0 Block_head e \<Longrightarrow>
   \<exists>p c. visits d0 p c \<and> out d' = out c \<and> dest d' = dest c"
proof (induction e arbitrary: st d' rule: inflate_blocks.induct)
  case (1 d)
  from "1.prems"(1) obtain bfinal d1 btype d2 res d3 where
    g1: "tinf_getbits d 1 = Some (bfinal, d1)" and
    g2: "tinf_getbits d1 2 = Some (btype, d2)" and
    b: "inflate_block d2 btype = Some (res, d3)"
    by (auto simp: inflate_blocks.simps [of d] split: Option.bind_splits)
  note r = inflate_block_returns [OF "1.prems"(2) g1 g2 b]
  show ?case
  proof (cases "res = TINF_OK \<and> bfinal = 0")
    case False
    with "1.prems"(1) g1 g2 b have "d' = d3"
      by (auto simp: inflate_blocks.simps [of d] split: if_splits)
    with r show ?thesis by simp
  next
    case True
    with "1.prems"(1) g1 g2 b have c: "inflate_blocks d3 = Some (st, d')"
      by (simp add: inflate_blocks.simps [of d])
    from True r have v: "visits d0 Block_head d3"
      by (simp add: after_block_def)
    from True have "\<not> res \<noteq> TINF_OK" "bfinal = 0" by simp_all
    from "1.IH" [OF g1 refl g2 refl b refl this c v] show ?thesis .
  qed
qed

section \<open>Claims\<close>

text \<open>
  C9 (as amended). Both length tables have 30 entries. The entry with 0 extra bits
  and base length 258 is the one for length code 28 (symbol 285); the entry for
  code 29 (symbol 286) is the guard entry with 127 extra bits and base 0.
\<close>

theorem length_tables_code_28:
  "length length_bits = 30 \<and> length length_base = 30 \<and>
   length_bits ! 28 = 0 \<and> length_base ! 28 = 258 \<and>
   length_bits ! 29 = 127 \<and> length_base ! 29 = 0"
  by (simp add: length_bits_def length_base_def)

text \<open>
  C9 as stated fails: the entry for code 29 does not carry 0 extra bits and base
  length 258.
\<close>

theorem length_tables_code_29_counterexample:
  "\<not> (length_bits ! 29 = 0 \<and> length_base ! 29 = 258)"
  by (simp add: length_bits_def)

text \<open>
  C6. A stored block whose 16-bit little-endian length field is not the one's
  complement of the 16-bit field after it (or whose four header bytes are not all
  there) makes \<open>tinf_inflate_uncompressed_block\<close> return \<open>TINF_DATA_ERROR\<close>. If the
  fields match, \<open>le16 (src d) (source d)\<close> source bytes follow them and fit into the
  output region, the block returns \<open>TINF_OK\<close>, exactly these bytes are copied to the
  output at the write cursor, everything else in the output is unchanged, and
  \<open>destLen\<close> grows by the length.
\<close>

theorem stored_block_verbatim:
  assumes "writer_ok d" and "length (out d) < 2 ^ 32"
  shows
    "(length (src d) < source d + 4 \<longrightarrow>
        tinf_inflate_uncompressed_block d = Some (TINF_DATA_ERROR, d)) \<and>
     (source d + 4 \<le> length (src d) \<and>
      le16 (src d) (source d) \<noteq> 65535 - le16 (src d) (source d + 2) \<longrightarrow>
        tinf_inflate_uncompressed_block d = Some (TINF_DATA_ERROR, d)) \<and>
     (source d + 4 \<le> length (src d) \<and>
      le16 (src d) (source d) = 65535 - le16 (src d) (source d + 2) \<and>
      source d + 4 + le16 (src d) (source d) \<le> length (src d) \<and>
      dest d + le16 (src d) (source d) \<le> length (out d) \<longrightarrow>
        (\<exists>d'. tinf_inflate_uncompressed_block d = Some (TINF_OK, d') \<and>
           out d' = take (dest d) (out d) @
                    take (le16 (src d) (source d)) (drop (source d + 4) (src d)) @
                    drop (dest d + le16 (src d) (source d)) (out d) \<and>
           source d' = source d + 4 + le16 (src d) (source d) \<and>
           dest d' = dest d + le16 (src d) (source d) \<and>
           destLen d' = destLen d + le16 (src d) (source d)))"
proof (intro conjI impI)
  assume "length (src d) < source d + 4"
  then show "tinf_inflate_uncompressed_block d = Some (TINF_DATA_ERROR, d)"
    by (rule stored_block_short)
next
  assume "source d + 4 \<le> length (src d) \<and>
      le16 (src d) (source d) \<noteq> 65535 - le16 (src d) (source d + 2)"
  then show "tinf_inflate_uncompressed_block d = Some (TINF_DATA_ERROR, d)"
    by (blast intro: stored_block_mismatch)
next
  assume a: "source d + 4 \<le> length (src d) \<and>
      le16 (src d) (source d) = 65535 - le16 (src d) (source d + 2) \<and>
      source d + 4 + le16 (src d) (source d) \<le> length (src d) \<and>
      dest d + le16 (src d) (source d) \<le> length (out d)"
  then obtain d' where
    b: "tinf_inflate_uncompressed_block d = Some (TINF_OK, d')"
       "out d' = take (dest d) (out d) @
                 take (le16 (src d) (source d)) (drop (source d + 4) (src d)) @
                 drop (dest d + le16 (src d) (source d)) (out d)"
       "source d' = source d + 4 + le16 (src d) (source d)"
       "dest d' = dest d + le16 (src d) (source d)"
       "destLen d' = (destLen d + le16 (src d) (source d)) mod 2 ^ 32"
    using stored_block_copy [of d] by blast
  from assms a have "destLen d = dest d" "dest d + le16 (src d) (source d) < 2 ^ 32"
    by (simp_all add: writer_ok_def)
  with b show "\<exists>d'. tinf_inflate_uncompressed_block d = Some (TINF_OK, d') \<and>
           out d' = take (dest d) (out d) @
                    take (le16 (src d) (source d)) (drop (source d + 4) (src d)) @
                    drop (dest d + le16 (src d) (source d)) (out d) \<and>
           source d' = source d + 4 + le16 (src d) (source d) \<and>
           dest d' = dest d + le16 (src d) (source d) \<and>
           destLen d' = destLen d + le16 (src d) (source d)"
    by simp
qed

theorem stored_block_verbatim_witness:
  "writer_ok (tinf_init [0, 0, 0] [0x03, 0x00, 0xFC, 0xFF, 0x61, 0x62, 0x63]) \<and>
   length (out (tinf_init [0, 0, 0] [0x03, 0x00, 0xFC, 0xFF, 0x61, 0x62, 0x63])) < 2 ^ 32 \<and>
   le16 [0x03, 0x00, 0xFC, 0xFF, 0x61, 0x62, 0x63] 0 = 3 \<and>
   le16 [0x03, 0x00, 0xFC, 0xFF, 0x61, 0x62, 0x63] 2 = 65532 \<and>
   (\<exists>d'. tinf_inflate_uncompressed_block
            (tinf_init [0, 0, 0] [0x03, 0x00, 0xFC, 0xFF, 0x61, 0x62, 0x63]) = Some (TINF_OK, d') \<and>
         out d' = [0x61, 0x62, 0x63] \<and> source d' = 7 \<and> dest d' = 3 \<and> destLen d' = 3) \<and>
   le16 [0x03, 0x00, 0xFC, 0xFE] 2 = 65276 \<and>
   tinf_inflate_uncompressed_block (tinf_init [0, 0, 0] [0x03, 0x00, 0xFC, 0xFE]) =
     Some (TINF_DATA_ERROR, tinf_init [0, 0, 0] [0x03, 0x00, 0xFC, 0xFE])"
proof -
  let ?d = "tinf_init [0, 0, 0] [0x03, 0x00, 0xFC, 0xFF, 0x61, 0x62, 0x63]"
  let ?e = "tinf_init [0, 0, 0] [0x03, 0x00, 0xFC, 0xFE]"
  have w: "writer_ok ?d" "length (out ?d) < 2 ^ 32" "writer_ok ?e" "length (out ?e) < 2 ^ 32"
    by (simp_all add: writer_ok_def tinf_init_def destEnd_def)
  have l: "le16 [0x03, 0x00, 0xFC, 0xFF, 0x61, 0x62, 0x63] 0 = 3"
    "le16 [0x03, 0x00, 0xFC, 0xFF, 0x61, 0x62, 0x63] 2 = 65532"
    "le16 [0x03, 0x00, 0xFC, 0xFE] 0 = 3" "le16 [0x03, 0x00, 0xFC, 0xFE] 2 = 65276"
    by (simp_all add: le16_def)
  have l': "le16 [0x03, 0x00, 0xFC, 0xFF, 0x61, 0x62, 0x63] (Suc (Suc 0)) = 65532"
    "le16 [0x03, 0x00, 0xFC, 0xFE] (Suc (Suc 0)) = 65276"
    by (simp_all add: le16_def)
  from stored_block_verbatim [OF w(1,2)] l(1) l'(1)
  have "\<exists>d'. tinf_inflate_uncompressed_block ?d = Some (TINF_OK, d') \<and>
         out d' = [0x61, 0x62, 0x63] \<and> source d' = 7 \<and> dest d' = 3 \<and> destLen d' = 3"
    by (simp add: tinf_init_def)
  moreover from stored_block_verbatim [OF w(3,4)] l(3) l'(2)
  have "tinf_inflate_uncompressed_block ?e = Some (TINF_DATA_ERROR, ?e)"
    by (simp add: tinf_init_def)
  ultimately show ?thesis using w l by simp
qed

text \<open>
  C10. Let the bit reader be at rest (\<open>reader_ok d\<close>, which includes
  \<open>bitcount d < 8\<close>) and let \<open>num \<le> 25\<close>; the decoder asks for at most 13 bits
  (the widths in the code are 1, 2, 3, 4, 5 and 7, and the extra-bit tables give
  at most 5 bits for a length code up to 28 and at most 13 for a distance code up to
  29). Then \<open>tinf_refill\<close> ends with \<open>bitcount \<le> 32\<close>, so its assertion holds;
  \<open>tinf_getbits\<close> returns and leaves the reader at rest again, in particular with
  \<open>bitcount < 8\<close>; as long as there is no overflow it advances the position in the
  bit stream, \<open>8 * source - bitcount\<close>, by exactly \<open>num\<close>. Every shift of the refill
  loop is by less than \<open>num\<close> bits, so the shifted byte keeps all its bits. At rest the
  read pointer is the first byte boundary at or after the position in the bit
  stream, and a stored block that returns \<open>TINF_OK\<close> has cleared \<open>tag\<close> and
  \<open>bitcount\<close> and has read on from that byte.
\<close>

theorem bit_reader_at_rest:
  assumes "reader_ok d" and "num \<le> 25"
  shows
    "(\<exists>d1 v d'. tinf_refill d num = Some d1 \<and> bitcount d1 \<le> 32 \<and>
        tinf_getbits d num = Some (v, d') \<and> reader_ok d' \<and> bitcount d' < 8 \<and>
        (\<not> overflow d' \<longrightarrow> 8 * source d' + bitcount d = 8 * source d + bitcount d' + num)) \<and>
     (\<forall>bc < num. \<forall>b :: byte. drop_bit bc (push_bit bc (ucast b :: 32 word)) = ucast b) \<and>
     (\<forall>s \<le> 28. length_bits ! s \<le> 5) \<and> (\<forall>s \<le> 29. dist_bits ! s \<le> 13) \<and>
     (bitcount d \<le> 8 * source d \<longrightarrow> (8 * source d - bitcount d + 7) div 8 = source d) \<and>
     (\<forall>d'. tinf_inflate_uncompressed_block d = Some (TINF_OK, d') \<longrightarrow>
        tag d' = 0 \<and> bitcount d' = 0 \<and> reader_ok d' \<and>
        source d' = source d + 4 + le16 (src d) (source d))"
proof (intro conjI allI impI)
  from tinf_getbits_total [OF assms] obtain v d' where
    g: "tinf_getbits d num = Some (v, d')" and r: "reader_ok d'"
    by blast
  from g obtain d1 where d1: "tinf_refill d num = Some d1"
    by (auto simp: tinf_getbits_def split: Option.bind_splits)
  then have "bitcount d1 \<le> 32"
    by (auto simp: tinf_refill_def split: if_splits Option.bind_splits)
  with g r d1 tinf_getbits_position [OF g]
  show "\<exists>d1 v d'. tinf_refill d num = Some d1 \<and> bitcount d1 \<le> 32 \<and>
        tinf_getbits d num = Some (v, d') \<and> reader_ok d' \<and> bitcount d' < 8 \<and>
        (\<not> overflow d' \<longrightarrow> 8 * source d' + bitcount d = 8 * source d + bitcount d' + num)"
    by (auto simp: reader_ok_def)
next
  fix bc and b :: byte
  assume "bc < num"
  with assms(2) show "drop_bit bc (push_bit bc (ucast b :: 32 word)) = ucast b"
    by (intro shift_keeps_byte) simp
next
  fix s :: nat
  assume "s \<le> 28"
  then show "length_bits ! s \<le> 5" by (rule length_bits_le)
next
  fix s :: nat
  assume "s \<le> 29"
  then show "dist_bits ! s \<le> 13" by (rule dist_bits_le)
next
  assume "bitcount d \<le> 8 * source d"
  with assms(1) show "(8 * source d - bitcount d + 7) div 8 = source d"
    by (simp add: reader_ok_def) arith
next
  fix d'
  assume b: "tinf_inflate_uncompressed_block d = Some (TINF_OK, d')"
  have s4: "source d + 4 \<le> length (src d)"
    using b by (rule contrapos_pp) (simp add: stored_block_short)
  have eq: "le16 (src d) (source d) = 65535 - le16 (src d) (source d + 2)"
    using b s4 by (rule_tac ccontr) (simp add: stored_block_mismatch)
  from stored_fields [OF s4] obtain len inv where
    f: "read_le16 d (source d) = Some len" "read_le16 d (source d + 2) = Some inv"
       "unat len = le16 (src d) (source d)"
    by blast
  from b s4 f have
    fit: "source d + 4 + le16 (src d) (source d) \<le> length (src d)"
         "dest d + le16 (src d) (source d) \<le> length (out d)"
    by (auto simp: tinf_inflate_uncompressed_block_def sourceEnd_def destEnd_def Let_def
        split: if_splits)
  from stored_block_copy [OF s4 eq fit] b have
    c: "tag d' = 0" "bitcount d' = 0" "source d' = source d + 4 + le16 (src d) (source d)"
       "src d' = src d" "overflow d' = overflow d"
    by auto
  have "\<not> overflow d"
    using assms(1) s4 by (auto simp: reader_ok_def sourceEnd_def)
  with c fit show "tag d' = 0" "bitcount d' = 0" "reader_ok d'"
    "source d' = source d + 4 + le16 (src d) (source d)"
    by (simp_all add: reader_ok_def sourceEnd_def)
qed

theorem bit_reader_at_rest_witness:
  "reader_ok (tinf_init [] [0x4B, 0x4C]) \<and> (5 :: nat) \<le> 25 \<and>
   (\<exists>d'. tinf_getbits (tinf_init [] [0x4B, 0x4C]) 5 = Some (11, d') \<and>
      bitcount d' = 3 \<and> source d' = 1 \<and> tag d' = 2 \<and> \<not> overflow d') \<and>
   length_bits ! 27 = 5 \<and> dist_bits ! 29 = 13"
proof -
  let ?d = "tinf_init [] [0x4B, 0x4C]"
  have h: "reader_ok ?d" "(5 :: nat) \<le> 25"
    by (simp_all add: reader_ok_def tinf_init_def sourceEnd_def)
  have e: "tinf_getbits ?d 5 =
      Some (11, ?d\<lparr>tag := 2, source := 1, bitcount := 3\<rparr>)"
    by (simp add: tinf_getbits_def tinf_refill_def tinf_getbits_no_refill_def
        refill_loop.simps tinf_init_def sourceEnd_def src_read_def)
  from bit_reader_at_rest [OF h] e h show ?thesis
    by (simp add: length_bits_def dist_bits_def tinf_init_def)
qed

text \<open>
  C5. The match copy writes the output positions \<open>dest, dest + 1, ...\<close> in
  ascending order, each from the position \<open>offs\<close> before it. So when the copy is
  done, every copied byte equals the byte \<open>offs\<close> positions before it in the final
  output, also where \<open>offs < len\<close> and that byte was written by the same copy: the
  bytes appended are the last \<open>offs\<close> bytes, repeated cyclically. With \<open>offs = 1\<close>
  the copy appends \<open>len\<close> times the last byte written; with length 5 after a byte
  \<open>A\<close> (0x41) it appends \<open>AAAAA\<close>.
\<close>

theorem match_copy_propagates:
  assumes "writer_ok d" and "1 \<le> offs" and "offs \<le> destLen d"
    and "dest d + len \<le> length (out d)"
  shows
    "\<exists>d'. copy_checked d offs len = Some (None, d') \<and> dest d' = dest d + len \<and>
       (\<forall>j < len. out d' ! (dest d + j) = out d' ! (dest d + j - offs)) \<and>
       (\<forall>j < len. out d' ! (dest d + j) = out d ! (dest d - offs + j mod offs)) \<and>
       (\<forall>k. k < dest d \<or> dest d + len \<le> k \<longrightarrow> out d' ! k = out d ! k) \<and>
       (offs = 1 \<longrightarrow>
          out d' = take (dest d) (out d) @ replicate len (out d ! (dest d - 1)) @
                   drop (dest d + len) (out d))"
proof -
  from copy_checked_copies [OF assms(1,3,4)] obtain d' where
    c: "copy_checked d offs len = Some (None, d')" "dest d' = dest d + len"
       "length (out d') = length (out d)" and
    u: "\<And>k. k < dest d \<or> dest d + len \<le> k \<Longrightarrow> out d' ! k = out d ! k" and
    v: "\<And>j. j < len \<Longrightarrow> out d' ! (dest d + j) = out d' ! (dest d + j - offs)"
    by blast
  have le: "offs \<le> dest d"
    using assms(1,3) mod_less_eq_dividend [of "dest d" "2 ^ 32"] by (simp add: writer_ok_def)
  have w: "out d' ! (dest d + j) = out d ! (dest d - offs + j mod offs)" if "j < len" for j
    using assms(2) le u v that by (rule copy_match_cyclic [where len = len]) simp_all
  have rl: "out d' = take (dest d) (out d) @ replicate len (out d ! (dest d - 1)) @
                   drop (dest d + len) (out d)" if "offs = 1"
  proof (rule nth_equalityI)
    show "length (out d') = length (take (dest d) (out d) @
        replicate len (out d ! (dest d - 1)) @ drop (dest d + len) (out d))"
      using c(3) assms(4) by simp
  next
    fix k
    assume k: "k < length (out d')"
    consider "k < dest d" | "dest d \<le> k" "k < dest d + len" | "dest d + len \<le> k"
      by linarith
    then show "out d' ! k = (take (dest d) (out d) @
        replicate len (out d ! (dest d - 1)) @ drop (dest d + len) (out d)) ! k"
    proof cases
      case 1
      with u [of k] assms(4) show ?thesis by (simp add: nth_append)
    next
      case 2
      define j where "j = k - dest d"
      from 2 have j: "k = dest d + j" "j < len" by (simp_all add: j_def)
      with w [of j] that assms(4) show ?thesis by (simp add: nth_append)
    next
      case 3
      then have "\<not> k < dest d" "\<not> k - dest d < len"
        "k - dest d - len + (dest d + len) = k" by simp_all
      with u [of k] 3 k c(3) assms(4) show ?thesis
        by (simp add: nth_append)
    qed
  qed
  from c u v w rl show ?thesis by blast
qed

definition run_of_A :: tinf_data where
  "run_of_A = (tinf_init [0x41, 0, 0, 0, 0, 0, 0] [])\<lparr>dest := 1, destLen := 1\<rparr>"

theorem match_copy_propagates_witness:
  "writer_ok run_of_A \<and> (1 :: nat) \<le> 1 \<and> 1 \<le> destLen run_of_A \<and>
   dest run_of_A + 5 \<le> length (out run_of_A) \<and>
   (\<exists>d'. copy_checked run_of_A 1 5 = Some (None, d') \<and> dest d' = 6 \<and>
      out d' = [0x41, 0x41, 0x41, 0x41, 0x41, 0x41, 0])"
proof -
  have h: "writer_ok run_of_A" "(1 :: nat) \<le> 1" "1 \<le> destLen run_of_A"
    "dest run_of_A + 5 \<le> length (out run_of_A)"
    by (simp_all add: run_of_A_def writer_ok_def tinf_init_def destEnd_def)
  have r: "replicate 5 (0x41 :: byte) = [0x41, 0x41, 0x41, 0x41, 0x41]"
    by (simp add: numeral_eq_Suc)
  from match_copy_propagates [OF h] h show ?thesis
    by (simp add: run_of_A_def tinf_init_def r) blast
qed

text \<open>
  C3. For a length vector of at most 288 entries, each at most 15 (the two
  assertions of the function), \<open>tinf_build_tree\<close> returns \<open>TINF_OK\<close> exactly when
  the vector is legal, and \<open>TINF_DATA_ERROR\<close> otherwise. Legal means: no symbol is
  coded (\<open>sum = 0\<close>), or exactly one symbol is coded and its length is 1, or more
  than one symbol is coded, no count exceeds the running capacity
  (\<open>max = 2 * (max - count[i])\<close>, starting at 1) and the final capacity is 0.
\<close>

theorem tinf_build_tree_legal:
  assumes "num \<le> 288" and "num \<le> length lengths" and "\<forall>i < num. lengths ! i \<le> 15"
  shows "\<exists>t'. tinf_build_tree t lengths num =
     Some (if legal (take num lengths) then TINF_OK else TINF_DATA_ERROR, t')"
  using assms by (rule tinf_build_tree_status)

lemma counts_eval:
  "counts ls =
     [0, count_list ls 1, count_list ls 2, count_list ls 3, count_list ls 4, count_list ls 5,
      count_list ls 6, count_list ls 7, count_list ls 8, count_list ls 9, count_list ls 10,
      count_list ls 11, count_list ls 12, count_list ls 13, count_list ls 14, count_list ls 15]"
proof -
  have "[0..<16] = [0, 1, 2, 3, 4, 5, 6, 7, 8, 9, 10, 11, 12, 13, 14, 15 :: nat]"
    by (simp add: upt_conv_Cons)
  then show ?thesis by (simp add: counts_def)
qed

theorem tinf_build_tree_legal_witness:
  "(4 :: nat) \<le> 288 \<and> 4 \<le> length [2, 2, 2, 2 :: nat] \<and>
   list_all (\<lambda>l. l \<le> 15) [2, 2, 2, 2 :: nat] \<and>
   legal [2, 2, 2, 2] \<and>
   (\<exists>t'. tinf_build_tree uninit_tree [2, 2, 2, 2] 4 = Some (TINF_OK, t')) \<and>
   \<not> legal [1, 1, 1] \<and>
   (\<exists>t'. tinf_build_tree uninit_tree [1, 1, 1] 3 = Some (TINF_DATA_ERROR, t')) \<and>
   \<not> legal [2, 2, 2] \<and>
   (\<exists>t'. tinf_build_tree uninit_tree [2, 2, 2] 3 = Some (TINF_DATA_ERROR, t')) \<and>
   \<not> legal [0, 2] \<and>
   (\<exists>t'. tinf_build_tree uninit_tree [0, 2] 2 = Some (TINF_DATA_ERROR, t')) \<and>
   legal [0, 0] \<and>
   (\<exists>t'. tinf_build_tree uninit_tree [0, 0] 2 = Some (TINF_OK, t'))"
proof -
  have b: "\<forall>i < 4. [2, 2, 2, 2 :: nat] ! i \<le> 15" "\<forall>i < 3. [1, 1, 1 :: nat] ! i \<le> 15"
    "\<forall>i < 3. [2, 2, 2 :: nat] ! i \<le> 15" "\<forall>i < 2. [0, 2 :: nat] ! i \<le> 15"
    "\<forall>i < 2. [0, 0 :: nat] ! i \<le> 15"
    by (simp_all add: less_Suc_eq numeral_eq_Suc)
  have l: "legal [2, 2, 2, 2]" "\<not> legal [1, 1, 1]" "\<not> legal [2, 2, 2]" "\<not> legal [0, 2]"
    "legal [0, 0]"
    by (simp_all add: legal_def counts_eval)
  from tinf_build_tree_legal [of 4 "[2, 2, 2, 2]" uninit_tree, OF _ _ b(1)]
    tinf_build_tree_legal [of 3 "[1, 1, 1]" uninit_tree, OF _ _ b(2)]
    tinf_build_tree_legal [of 3 "[2, 2, 2]" uninit_tree, OF _ _ b(3)]
    tinf_build_tree_legal [of 2 "[0, 2]" uninit_tree, OF _ _ b(4)]
    tinf_build_tree_legal [of 2 "[0, 0]" uninit_tree, OF _ _ b(5)]
    l
  show ?thesis by simp
qed

text \<open>
  C8. Let exactly one of the \<open>num\<close> code lengths be non-zero, namely that of
  symbol \<open>k\<close>, and let it be 1. Then \<open>tinf_build_tree\<close> returns \<open>TINF_OK\<close> with
  \<open>count[1] = 2\<close>, \<open>trans[0] = k\<close>, \<open>trans[1] = k + 1\<close> and \<open>max_sym = k\<close>. Decoding
  a 1 bit with this tree yields the symbol \<open>k + 1 = max_sym + 1\<close>, and each use of the
  tree turns that into \<open>TINF_DATA_ERROR\<close>: as code length tree in the loop of
  \<open>tinf_decode_trees\<close>, as literal/length tree in the symbol loop (there the one
  symbol is at least 256, since the end-of-block symbol has a code), and as distance
  tree in the symbol loop.
\<close>

theorem single_symbol_guard:
  assumes "single lengths num k" and "num \<le> 288" and "length (trans_tab t) = 288"
  shows
    "\<exists>t'. tinf_build_tree t lengths num = Some (TINF_OK, t') \<and>
       table t' ! 1 = 2 \<and> trans_tab t' ! 0 = k \<and> trans_tab t' ! 1 = k + 1 \<and>
       max_sym t' = int k \<and>
       (\<forall>d d1. tinf_getbits d 1 = Some (1, d1) \<longrightarrow>
          tinf_decode_symbol d t' = Some (k + 1, d1) \<and>
          (\<forall>ls n tot. n < tot \<longrightarrow>
             decode_lengths d t' ls n tot = Some (TINF_DATA_ERROR, ls, d1)) \<and>
          (\<forall>dt. 256 \<le> k \<longrightarrow>
             tinf_inflate_block_data d t' dt = Some (TINF_DATA_ERROR, d1))) \<and>
       (\<forall>d lt symb len d1 d2.
          \<not> (int symb > max_sym lt \<or> symb - 257 > 28) \<and>
          tinf_getbits_base d (length_bits ! (symb - 257)) (length_base ! (symb - 257)) =
            Some (len, d1) \<and>
          tinf_getbits d1 1 = Some (1, d2) \<longrightarrow>
          inflate_match d lt t' symb = Some (Some TINF_DATA_ERROR, d2))"
proof -
  define t' where
    "t' = t\<lparr>table := [0, 2, 0, 0, 0, 0, 0, 0, 0, 0, 0, 0, 0, 0, 0, 0],
             trans_tab := (trans_tab t)[0 := k, 1 := k + 1],
             max_sym := int k\<rparr>"
  have b: "tinf_build_tree t lengths num = Some (TINF_OK, t')"
    unfolding t'_def using assms(1,2) by (rule tinf_build_tree_single)
  have f: "table t' ! 1 = 2" "trans_tab t' ! 0 = k" "trans_tab t' ! 1 = k + 1" "max_sym t' = int k"
    using assms(3) by (simp_all add: t'_def)
  have dec: "tinf_decode_symbol d t' = Some (k + 1, d1)"
    if "tinf_getbits d 1 = Some (1, d1)" for d d1
    using that f by (simp add: tinf_decode_symbol_def decode_loop.simps [of d t' 0 0 0])
  have cl: "decode_lengths d t' ls n tot = Some (TINF_DATA_ERROR, ls, d1)"
    if "tinf_getbits d 1 = Some (1, d1)" "n < tot" for d d1 ls n tot
    using that dec [OF that(1)] f by (simp add: decode_lengths.simps [of d t' ls n tot])
  have lt: "tinf_inflate_block_data d t' dt = Some (TINF_DATA_ERROR, d1)"
    if "tinf_getbits d 1 = Some (1, d1)" "256 \<le> k" for d d1 dt
    using that dec [OF that(1)] f
    by (simp add: tinf_inflate_block_data.simps [of d t' dt] inflate_match_def decode_match_def)
  have dt: "inflate_match d lt t' symb = Some (Some TINF_DATA_ERROR, d2)"
    if "\<not> (int symb > max_sym lt \<or> symb - 257 > 28)"
      "tinf_getbits_base d (length_bits ! (symb - 257)) (length_base ! (symb - 257)) = Some (len, d1)"
      "tinf_getbits d1 1 = Some (1, d2)" for d lt symb len d1 d2
    using that dec [OF that(3)] f by (simp add: inflate_match_def decode_match_def)
  from b f dec cl lt dt show ?thesis by blast
qed


theorem single_symbol_guard_witness:
  "single (replicate 256 0 @ [1]) 257 256 \<and> (257 :: nat) \<le> 288 \<and>
   length (trans_tab uninit_tree) = 288 \<and>
   tinf_getbits (tinf_init [] [1]) 1 =
     Some (1, (tinf_init [] [1])\<lparr>tag := 0, source := 1, bitcount := 7\<rparr>) \<and>
   (\<exists>t'. tinf_build_tree uninit_tree (replicate 256 0 @ [1]) 257 = Some (TINF_OK, t') \<and>
      table t' ! 1 = 2 \<and> trans_tab t' ! 1 = 257 \<and> max_sym t' = 256 \<and>
      tinf_decode_symbol (tinf_init [] [1]) t' =
        Some (257, (tinf_init [] [1])\<lparr>tag := 0, source := 1, bitcount := 7\<rparr>) \<and>
      tinf_inflate_block_data (tinf_init [] [1]) t' uninit_tree =
        Some (TINF_DATA_ERROR, (tinf_init [] [1])\<lparr>tag := 0, source := 1, bitcount := 7\<rparr>))"
proof -
  have h: "single (replicate 256 0 @ [1]) 257 256" "(257 :: nat) \<le> 288"
    "length (trans_tab uninit_tree) = 288"
    by (simp_all add: single_def uninit_tree_def nth_append)
  have g: "tinf_getbits (tinf_init [] [1]) 1 =
     Some (1, (tinf_init [] [1])\<lparr>tag := 0, source := 1, bitcount := 7\<rparr>)"
    by (simp add: tinf_getbits_def tinf_refill_def tinf_getbits_no_refill_def
        refill_loop.simps tinf_init_def sourceEnd_def src_read_def)
  obtain t' where
    A: "tinf_build_tree uninit_tree (replicate 256 0 @ [1]) 257 = Some (TINF_OK, t') \<and>
       table t' ! 1 = 2 \<and> trans_tab t' ! 0 = 256 \<and> trans_tab t' ! 1 = 256 + 1 \<and>
       max_sym t' = int 256 \<and>
       (\<forall>d d1. tinf_getbits d 1 = Some (1, d1) \<longrightarrow>
          tinf_decode_symbol d t' = Some (256 + 1, d1) \<and>
          (\<forall>ls n tot. n < tot \<longrightarrow>
             decode_lengths d t' ls n tot = Some (TINF_DATA_ERROR, ls, d1)) \<and>
          (\<forall>dt. 256 \<le> (256 :: nat) \<longrightarrow>
             tinf_inflate_block_data d t' dt = Some (TINF_DATA_ERROR, d1))) \<and>
       (\<forall>d lt symb len d1 d2.
          \<not> (int symb > max_sym lt \<or> symb - 257 > 28) \<and>
          tinf_getbits_base d (length_bits ! (symb - 257)) (length_base ! (symb - 257)) =
            Some (len, d1) \<and>
          tinf_getbits d1 1 = Some (1, d2) \<longrightarrow>
          inflate_match d lt t' symb = Some (Some TINF_DATA_ERROR, d2))"
    using single_symbol_guard [OF h] ..
  then have
    b: "tinf_build_tree uninit_tree (replicate 256 0 @ [1]) 257 = Some (TINF_OK, t')"
       "table t' ! 1 = 2" "trans_tab t' ! 1 = 257" "max_sym t' = 256" and
    al: "\<forall>d d1. tinf_getbits d 1 = Some (1, d1) \<longrightarrow>
          tinf_decode_symbol d t' = Some (256 + 1, d1) \<and>
          (\<forall>ls n tot. n < tot \<longrightarrow>
             decode_lengths d t' ls n tot = Some (TINF_DATA_ERROR, ls, d1)) \<and>
          (\<forall>dt. 256 \<le> (256 :: nat) \<longrightarrow>
             tinf_inflate_block_data d t' dt = Some (TINF_DATA_ERROR, d1))"
    by simp_all
  note c = al [rule_format, OF g]
  from c have
    "tinf_decode_symbol (tinf_init [] [1]) t' =
        Some (257, (tinf_init [] [1])\<lparr>tag := 0, source := 1, bitcount := 7\<rparr>)"
    "tinf_inflate_block_data (tinf_init [] [1]) t' uninit_tree =
        Some (TINF_DATA_ERROR, (tinf_init [] [1])\<lparr>tag := 0, source := 1, bitcount := 7\<rparr>)"
    by simp_all
  with b g h show ?thesis by (intro conjI exI [of _ t']) assumption+
qed

text \<open>
  C2. For every destination region \<open>dst\<close> and every source region \<open>srcs\<close> the
  call returns a status: no read of the source and no read or write of the
  destination was outside its region (such an access is \<open>None\<close> in the model, as is a
  failed assertion), whatever the status is. The source is unchanged, the destination
  region keeps its size, and the count stored in \<^verbatim>\<open>*destLen\<close> is at most the capacity.
\<close>

theorem tinf_uncompress_in_bounds:
  "\<exists>st n d. tinf_uncompress_state dst srcs = Some (st, n, d) \<and>
     tinf_uncompress dst srcs = Some (st, n, out d) \<and>
     state_ok d \<and> src d = srcs \<and> length (out d) = length dst \<and>
     source d \<le> length srcs \<and> dest d \<le> length dst \<and> n \<le> length dst"
proof -
  from tinf_uncompress_state_total [of dst srcs] obtain st n d where
    t: "tinf_uncompress_state dst srcs = Some (st, n, d)" and s: "state_ok d" and
    r: "runs_on (tinf_init dst srcs) d" and n: "n = 0 \<or> st = TINF_OK \<and> n = destLen d"
    by blast
  have f: "src d = srcs" "length (out d) = length dst"
    using r by (simp_all add: runs_on_def tinf_init_def)
  have m: "dest d mod 2 ^ 32 \<le> dest d" by simp
  have b: "source d \<le> length srcs" "dest d \<le> length dst" "destLen d \<le> length dst"
    using s f m
    by (auto simp: state_ok_def reader_ok_def writer_ok_def sourceEnd_def destEnd_def
        simp del: mod_less_eq_dividend)
  have "tinf_uncompress dst srcs = Some (st, n, out d)"
    using t by (simp add: tinf_uncompress_def)
  with t s f b n show ?thesis by auto
qed

theorem tinf_uncompress_in_bounds_witness:
  "\<exists>d. tinf_uncompress_state [0] [0x73, 0x1C, 0x00] = Some (TINF_BUF_ERROR, 0, d) \<and>
     state_ok d \<and> length (out d) = 1 \<and> source d \<le> 3 \<and> dest d \<le> 1"
proof -
  have e: "\<exists>d. tinf_uncompress_state [0] [0x73, 0x1C, 0x00] = Some (TINF_BUF_ERROR, 0, d)"
    by (simp add: eval_blocks eval_reader eval_fixed tinf_init_def cong: bind_weak_cong)
  with tinf_uncompress_in_bounds [of "[0]" "[0x73, 0x1C, 0x00]"] show ?thesis
    by auto
qed




text \<open>
  C4. Take a state of the symbol loop in which \<open>destLen\<close> counts the bytes written
  (\<open>writer_ok\<close>) and a symbol for which the match is decoded, with length \<open>len\<close> and
  offset \<open>offs\<close>, in the state \<open>d3\<close>. Decoding has written nothing, and the offset is
  at least 1. If the offset is greater than \<open>destLen\<close>, the branch returns
  \<open>TINF_DATA_ERROR\<close> in the state \<open>d3\<close>: nothing is copied. Otherwise the offset is at
  most the number of bytes written; then the branch returns \<open>TINF_BUF_ERROR\<close>, again
  in \<open>d3\<close>, when the match does not fit, and else it copies: byte \<open>j\<close> of the copy is
  read at the output position \<open>dest + j - offs\<close>, which is not before the start of the
  output and is below \<open>dest + j\<close>, the position it is written to, and the output
  below \<open>dest\<close> is left as it was.
\<close>

theorem match_offset_within_written:
  assumes "writer_ok d" and "decode_match d lt dt symb = Some (Some (len, offs), d3)"
  shows
    "1 \<le> offs \<and> out d3 = out d \<and> dest d3 = dest d \<and> destLen d3 = destLen d \<and>
     (destLen d < offs \<longrightarrow>
        inflate_match d lt dt symb = Some (Some TINF_DATA_ERROR, d3)) \<and>
     (offs \<le> destLen d \<longrightarrow> offs \<le> dest d \<and>
        (length (out d) < dest d + len \<longrightarrow>
           inflate_match d lt dt symb = Some (Some TINF_BUF_ERROR, d3)) \<and>
        (dest d + len \<le> length (out d) \<longrightarrow>
           (\<exists>d'. inflate_match d lt dt symb = Some (None, d') \<and>
              dest d' = dest d + len \<and>
              (\<forall>j < len. offs \<le> dest d + j \<and> dest d + j - offs < dest d + j \<and>
                 out d' ! (dest d + j) = out d' ! (dest d + j - offs)) \<and>
              (\<forall>k < dest d. out d' ! k = out d ! k))))"
proof -
  note o = decode_match_offs [OF assms(2)]
  from decode_match_reads_on [OF assms(2)] have
    f: "out d3 = out d" "dest d3 = dest d" "destLen d3 = destLen d"
    by (simp_all add: reads_on_def)
  with assms(1) have w: "writer_ok d3"
    by (simp add: writer_ok_def destEnd_def)
  have m: "inflate_match d lt dt symb = copy_checked d3 offs len"
    using assms(2) by (simp add: inflate_match_def)
  have a: "inflate_match d lt dt symb = Some (Some TINF_DATA_ERROR, d3)" if "destLen d < offs"
    using that m f by (simp add: copy_checked_reject)
  have le: "offs \<le> dest d" if "offs \<le> destLen d"
    using that assms(1) mod_less_eq_dividend [of "dest d" "2 ^ 32"]
    by (simp add: writer_ok_def del: mod_less_eq_dividend)
  have b: "inflate_match d lt dt symb = Some (Some TINF_BUF_ERROR, d3)"
    if "offs \<le> destLen d" "length (out d) < dest d + len"
    using that m f by (simp add: copy_checked_def destEnd_def)
  have c: "\<exists>d'. inflate_match d lt dt symb = Some (None, d') \<and>
              dest d' = dest d + len \<and>
              (\<forall>j < len. offs \<le> dest d + j \<and> dest d + j - offs < dest d + j \<and>
                 out d' ! (dest d + j) = out d' ! (dest d + j - offs)) \<and>
              (\<forall>k < dest d. out d' ! k = out d ! k)"
    if h: "offs \<le> destLen d" "dest d + len \<le> length (out d)"
  proof -
    from h f have "offs \<le> destLen d3" "dest d3 + len \<le> length (out d3)"
      by simp_all
    from copy_checked_copies [OF w this] obtain d' where
      c: "copy_checked d3 offs len = Some (None, d')" "dest d' = dest d3 + len" and
      u: "\<forall>k. k < dest d3 \<or> dest d3 + len \<le> k \<longrightarrow> out d' ! k = out d3 ! k" and
      v: "\<forall>j < len. out d' ! (dest d3 + j) = out d' ! (dest d3 + j - offs)"
      by blast
    have "\<forall>j < len. offs \<le> dest d + j \<and> dest d + j - offs < dest d + j \<and>
        out d' ! (dest d + j) = out d' ! (dest d + j - offs)"
      using v f(2) le [OF h(1)] o by auto
    moreover have "\<forall>k < dest d. out d' ! k = out d ! k"
      using u f by simp
    ultimately show ?thesis
      using c m f(2) by (intro exI [of _ d']) simp
  qed
  from o f a b c le show ?thesis
    by (intro conjI impI) assumption+
qed

definition after_A :: tinf_data where
  "after_A = (tinf_build_fixed_trees (tinf_init [0x41, 0, 0, 0] [0x00, 0x10]))
               \<lparr>dest := 1, destLen := 1\<rparr>"

theorem match_offset_within_written_witness:
  "writer_ok after_A \<and>
   (\<exists>d3. decode_match after_A (ltree after_A) (dtree after_A) 257 = Some (Some (3, 1), d3)) \<and>
   (\<exists>d'. inflate_match after_A (ltree after_A) (dtree after_A) 257 = Some (None, d') \<and>
      dest d' = 4 \<and> out d' ! 0 = 0x41 \<and> out d' ! 1 = out d' ! 0 \<and>
      out d' ! 2 = out d' ! 1 \<and> out d' ! 3 = out d' ! 2) \<and>
   (\<exists>d3. decode_match after_A (ltree after_A) (dtree after_A) 258 = Some (Some (4, 1), d3) \<and>
      inflate_match after_A (ltree after_A) (dtree after_A) 258
        = Some (Some TINF_BUF_ERROR, d3)) \<and>
   (\<exists>d3. decode_match (after_A\<lparr>source := 1\<rparr>) (ltree after_A) (dtree after_A) 257
            = Some (Some (3, 2), d3) \<and>
      inflate_match (after_A\<lparr>source := 1\<rparr>) (ltree after_A) (dtree after_A) 257
            = Some (Some TINF_DATA_ERROR, d3))"
proof -
  let ?lt = "ltree after_A" and ?dt = "dtree after_A"
  let ?e = "after_A\<lparr>source := 1\<rparr>"
  have w: "writer_ok after_A" "writer_ok ?e"
    by (simp_all add: after_A_def writer_ok_def tinf_init_def destEnd_def
        tinf_build_fixed_trees_def)
  have v: "destLen after_A = 1" "dest after_A = 1" "length (out after_A) = 4"
    "out after_A ! 0 = 0x41" "destLen ?e = 1"
    by (simp_all add: after_A_def tinf_init_def tinf_build_fixed_trees_def)
  have "\<exists>d3. decode_match after_A ?lt ?dt 257 = Some (Some (3, 1), d3)"
    by (simp add: after_A_def decode_match_def eval_reader eval_fixed tinf_init_def
        tinf_build_fixed_trees_def length_bits_def length_base_def dist_bits_def dist_base_def
        cong: bind_weak_cong)
  then obtain d3 where
    e1: "decode_match after_A ?lt ?dt 257 = Some (Some (3, 1), d3)"
    by blast
  have "\<exists>d3. decode_match after_A ?lt ?dt 258 = Some (Some (4, 1), d3)"
    by (simp add: after_A_def decode_match_def eval_reader eval_fixed tinf_init_def
        tinf_build_fixed_trees_def length_bits_def length_base_def dist_bits_def dist_base_def
        cong: bind_weak_cong)
  then obtain d4 where
    e2: "decode_match after_A ?lt ?dt 258 = Some (Some (4, 1), d4)"
    by blast
  have "\<exists>d3. decode_match ?e ?lt ?dt 257 = Some (Some (3, 2), d3)"
    by (simp add: after_A_def decode_match_def eval_reader eval_fixed tinf_init_def
        tinf_build_fixed_trees_def length_bits_def length_base_def dist_bits_def dist_base_def
        cong: bind_weak_cong)
  then obtain d5 where
    e3: "decode_match ?e ?lt ?dt 257 = Some (Some (3, 2), d5)"
    by blast
  from match_offset_within_written [OF w(1) e1] v obtain d' where
    c: "inflate_match after_A ?lt ?dt 257 = Some (None, d')" "dest d' = 4" and
    j: "\<forall>j < 3. out d' ! (1 + j) = out d' ! (1 + j - 1)" and
    k: "\<forall>k < 1. out d' ! k = out after_A ! k"
    by auto
  have j': "out d' ! 1 = out d' ! 0" "out d' ! 2 = out d' ! 1" "out d' ! 3 = out d' ! 2"
    using j [rule_format, of 0] j [rule_format, of 1] j [rule_format, of 2]
    by (simp_all add: numeral_2_eq_2 numeral_3_eq_3)
  from k v have k': "out d' ! 0 = 0x41"
    by simp
  have p1: "\<exists>d'. inflate_match after_A ?lt ?dt 257 = Some (None, d') \<and>
      dest d' = 4 \<and> out d' ! 0 = 0x41 \<and> out d' ! 1 = out d' ! 0 \<and>
      out d' ! 2 = out d' ! 1 \<and> out d' ! 3 = out d' ! 2"
    using c j' k' by (intro exI [of _ d'] conjI) assumption+
  from match_offset_within_written [OF w(1) e2] v have
    "inflate_match after_A ?lt ?dt 258 = Some (Some TINF_BUF_ERROR, d4)"
    by simp
  with e2 have p2: "\<exists>d3. decode_match after_A ?lt ?dt 258 = Some (Some (4, 1), d3) \<and>
      inflate_match after_A ?lt ?dt 258 = Some (Some TINF_BUF_ERROR, d3)"
    by (intro exI [of _ d4] conjI) assumption+
  from match_offset_within_written [OF w(2) e3] v have
    "inflate_match ?e ?lt ?dt 257 = Some (Some TINF_DATA_ERROR, d5)"
    by simp
  with e3 have p3: "\<exists>d3. decode_match ?e ?lt ?dt 257 = Some (Some (3, 2), d3) \<and>
      inflate_match ?e ?lt ?dt 257 = Some (Some TINF_DATA_ERROR, d3)"
    by (intro exI [of _ d5] conjI) assumption+
  from e1 have p0: "\<exists>d3. decode_match after_A ?lt ?dt 257 = Some (Some (3, 1), d3)"
    by (rule exI)
  from w(1) p0 p1 p2 p3 show ?thesis
    by (intro conjI) assumption+
qed

text \<open>
  C1. The call returns a status \<open>st\<close>, the value \<open>n\<close> of \<^verbatim>\<open>*destLen\<close> at return and the
  destination memory at return, which is the output \<open>out d\<close> of the state \<open>d\<close> in which
  the block loop stopped: nothing is done to the destination after the loop. The state
  starts with \<open>destLen = 0\<close>; when the status is not \<open>TINF_OK\<close> (a data error or a buffer
  error) \<open>n\<close> is zero; when it is \<open>TINF_OK\<close>, \<open>n\<close> is the count of bytes produced (the
  write cursor, for a capacity that fits \<^verbatim>\<open>unsigned int\<close>).

  Whatever the status, the bytes written stay in place. For every state \<open>e\<close> the call
  passes through, at the head of the block loop or of the symbol loop, also inside the
  block that fails, the write cursor at return is not below that of \<open>e\<close> and the
  destination at return agrees with the output of \<open>e\<close> below the cursor of \<open>e\<close>. And the
  destination and the cursor at return are those of a state the call passed through:
  the step that returns writes nothing and undoes nothing. The same holds for the block
  loop started in any state \<open>e\<close>.
\<close>

theorem destLen_only_on_success:
  "destLen (tinf_init dst srcs) = 0 \<and>
   (\<exists>res st n d. inflate_blocks (tinf_init dst srcs) = Some (res, d) \<and>
      tinf_uncompress_state dst srcs = Some (st, n, d) \<and>
      tinf_uncompress dst srcs = Some (st, n, out d) \<and>
      (st \<noteq> TINF_OK \<longrightarrow> n = 0) \<and>
      (st = TINF_OK \<longrightarrow> n = destLen d \<and> (length dst < 2 ^ 32 \<longrightarrow> n = dest d)) \<and>
      (\<forall>p e. visits (tinf_init dst srcs) p e \<longrightarrow>
         dest e \<le> dest d \<and> (\<forall>k < dest e. out d ! k = out e ! k)) \<and>
      (\<exists>p e. visits (tinf_init dst srcs) p e \<and> out d = out e \<and> dest d = dest e)) \<and>
   (\<forall>e st e'. inflate_blocks e = Some (st, e') \<longrightarrow>
      dest e \<le> dest e' \<and> (\<forall>k < dest e. out e' ! k = out e ! k))"
proof (intro conjI allI impI)
  show "destLen (tinf_init dst srcs) = 0"
    by (simp add: tinf_init_def)
next
  let ?i = "tinf_init dst srcs"
  from tinf_uncompress_state_total [of dst srcs] obtain st n d where
    t: "tinf_uncompress_state dst srcs = Some (st, n, d)" and s: "state_ok d" and
    r: "runs_on ?i d"
    by blast
  from t obtain res where i: "inflate_blocks ?i = Some (res, d)"
    by (auto simp: tinf_uncompress_state_def split: Option.bind_splits if_splits)
  have u: "tinf_uncompress dst srcs = Some (st, n, out d)"
    using t by (simp add: tinf_uncompress_def)
  have z: "st \<noteq> TINF_OK \<longrightarrow> n = 0"
    using t by (auto simp: tinf_uncompress_state_def split: Option.bind_splits if_splits)
  have k: "st = TINF_OK \<longrightarrow> n = destLen d"
    using t by (auto simp: tinf_uncompress_state_def split: Option.bind_splits if_splits)
  have "length (out d) = length dst"
    using r by (simp add: runs_on_def tinf_init_def)
  with s have "dest d \<le> length dst" and "destLen d = dest d mod 2 ^ 32"
    by (simp_all add: state_ok_def writer_ok_def destEnd_def)
  then have c: "length dst < 2 ^ 32 \<longrightarrow> destLen d = dest d"
    by (metis le_less_trans mod_less)
  have f: "st = TINF_OK \<longrightarrow> n = destLen d \<and> (length dst < 2 ^ 32 \<longrightarrow> n = dest d)"
    using k c by simp
  have v: "\<forall>p e. visits ?i p e \<longrightarrow> dest e \<le> dest d \<and> (\<forall>k < dest e. out d ! k = out e ! k)"
  proof (intro allI impI)
    fix p e
    assume "visits ?i p e"
    from visits_keeps [OF this i] show "dest e \<le> dest d \<and> (\<forall>k < dest e. out d ! k = out e ! k)"
      by (simp add: keeps_written_def)
  qed
  have w: "\<exists>p e. visits ?i p e \<and> out d = out e \<and> dest d = dest e"
    using i visits.start by (rule inflate_blocks_returns)
  from i t u z f v w show "\<exists>res st n d. inflate_blocks ?i = Some (res, d) \<and>
      tinf_uncompress_state dst srcs = Some (st, n, d) \<and>
      tinf_uncompress dst srcs = Some (st, n, out d) \<and>
      (st \<noteq> TINF_OK \<longrightarrow> n = 0) \<and>
      (st = TINF_OK \<longrightarrow> n = destLen d \<and> (length dst < 2 ^ 32 \<longrightarrow> n = dest d)) \<and>
      (\<forall>p e. visits ?i p e \<longrightarrow> dest e \<le> dest d \<and> (\<forall>k < dest e. out d ! k = out e ! k)) \<and>
      (\<exists>p e. visits ?i p e \<and> out d = out e \<and> dest d = dest e)"
    by (intro exI [of _ res] exI [of _ st] exI [of _ n] exI [of _ d] conjI) assumption+
next
  fix e st e'
  assume "inflate_blocks e = Some (st, e')"
  from inflate_blocks_keeps [OF this]
  show "dest e \<le> dest e'" by (simp add: keeps_written_def)
next
  fix e st e' k
  assume "inflate_blocks e = Some (st, e')" and "k < dest e"
  with inflate_blocks_keeps [of e st e']
  show "out e' ! k = out e ! k" by (simp add: keeps_written_def)
qed

theorem destLen_only_on_success_witness:
  "(\<exists>p e. visits (tinf_init [0, 0, 0, 0, 0] [0x73, 0x1C, 0x00, 0x00]) p e \<and>
      dest e = 1 \<and> out e = [0x41, 0, 0, 0, 0]) \<and>
   tinf_uncompress [0, 0, 0, 0, 0] [0x73, 0x1C, 0x00, 0x00]
     = Some (TINF_BUF_ERROR, 0, [0x41, 0, 0, 0, 0]) \<and>
   tinf_uncompress [0, 0, 0, 0] [0x01, 0x03, 0x00, 0xFC, 0xFF, 0x61, 0x62, 0x63]
     = Some (TINF_OK, 3, [0x61, 0x62, 0x63, 0])"
proof -
  let ?dst = "[0, 0, 0, 0, 0] :: byte list"
  let ?src = "[0x73, 0x1C, 0x00, 0x00] :: byte list"
  let ?i = "tinf_init ?dst ?src"
  have "\<exists>e1 e2 c1 c2. tinf_getbits ?i 1 = Some (1, e1) \<and> tinf_getbits e1 2 = Some (1, e2) \<and>
      tinf_decode_symbol (tinf_build_fixed_trees e2) (ltree (tinf_build_fixed_trees e2))
        = Some (65, c1) \<and>
      \<not> overflow c1 \<and> inflate_literal c1 65 = Some (None, c2) \<and>
      dest c2 = 1 \<and> out c2 = [0x41, 0, 0, 0, 0]"
    by (simp add: eval_reader eval_fixed tinf_build_fixed_trees_def inflate_literal_def
        dest_write_def tinf_init_def cong: bind_weak_cong)
  then obtain e1 e2 c1 c2 where
    g1: "tinf_getbits ?i 1 = Some (1, e1)" and g2: "tinf_getbits e1 2 = Some (1, e2)" and
    s: "tinf_decode_symbol (tinf_build_fixed_trees e2) (ltree (tinf_build_fixed_trees e2))
          = Some (65, c1)" and
    o: "\<not> overflow c1" and l: "inflate_literal c1 65 = Some (None, c2)" and
    c2: "dest c2 = 1" "out c2 = [0x41, 0, 0, 0, 0]"
    by blast
  let ?t = "tinf_build_fixed_trees e2"
  have "visits ?i (Symbol_head 1 (ltree ?t) (dtree ?t)) ?t"
    using visits.start g1 g2 refl by (rule visits.fixed)
  then have v: "visits ?i (Symbol_head 1 (ltree ?t) (dtree ?t)) c2"
    using s o _ l by (rule visits.literal) simp
  with c2 have a: "\<exists>p e. visits ?i p e \<and> dest e = 1 \<and> out e = [0x41, 0, 0, 0, 0]"
    by blast
  have "\<exists>m e. tinf_uncompress_state ?dst ?src = Some (TINF_BUF_ERROR, m, e) \<and>
      out e = [0x41, 0, 0, 0, 0]"
    by (simp add: eval_blocks eval_reader eval_fixed tinf_init_def cong: bind_weak_cong)
  then obtain m e where
    e: "tinf_uncompress_state ?dst ?src = Some (TINF_BUF_ERROR, m, e)" and
    oe: "out e = [0x41, 0, 0, 0, 0]"
    by blast
  from destLen_only_on_success [of ?dst ?src] obtain st n d where
    t: "tinf_uncompress_state ?dst ?src = Some (st, n, d)" and
    u: "tinf_uncompress ?dst ?src = Some (st, n, out d)" and
    z: "st \<noteq> TINF_OK \<longrightarrow> n = 0" and
    k: "\<forall>p e. visits ?i p e \<longrightarrow> dest e \<le> dest d \<and> (\<forall>k < dest e. out d ! k = out e ! k)"
    by blast
  from k v c2 have kept: "out d ! 0 = 0x41"
    by fastforce
  from e t have "st = TINF_BUF_ERROR" "d = e" by simp_all
  with u z oe kept have b: "tinf_uncompress ?dst ?src = Some (TINF_BUF_ERROR, 0, [0x41, 0, 0, 0, 0])"
    by simp
  let ?dst2 = "[0, 0, 0, 0] :: byte list"
  let ?src2 = "[0x01, 0x03, 0x00, 0xFC, 0xFF, 0x61, 0x62, 0x63] :: byte list"
  have "\<exists>m e. tinf_uncompress_state ?dst2 ?src2 = Some (TINF_OK, m, e) \<and>
      dest e = 3 \<and> out e = [0x61, 0x62, 0x63, 0]"
    by (simp add: eval_blocks eval_reader eval_stored dest_write_def tinf_init_def
        cong: bind_weak_cong)
  then obtain m2 e2' where
    e2: "tinf_uncompress_state ?dst2 ?src2 = Some (TINF_OK, m2, e2')" and
    oe2: "dest e2' = 3" "out e2' = [0x61, 0x62, 0x63, 0]"
    by blast
  from destLen_only_on_success [of ?dst2 ?src2] obtain st2 n2 d2 where
    t2: "tinf_uncompress_state ?dst2 ?src2 = Some (st2, n2, d2)" and
    u2: "tinf_uncompress ?dst2 ?src2 = Some (st2, n2, out d2)" and
    f2: "st2 = TINF_OK \<longrightarrow> n2 = destLen d2 \<and> (length ?dst2 < 2 ^ 32 \<longrightarrow> n2 = dest d2)"
    by blast
  from e2 t2 have q: "st2 = TINF_OK" "d2 = e2'" by simp_all
  with f2 have "n2 = dest e2'" by simp
  with u2 q oe2 have c: "tinf_uncompress ?dst2 ?src2 = Some (TINF_OK, 3, [0x61, 0x62, 0x63, 0])"
    by simp
  from a b c show ?thesis
    by (intro conjI) assumption+
qed

end
